theory Spec2Isabelle
  imports Main
begin

section \<open>NavigatorService: the checkout navigation of src/services/NavigatorService.js\<close>

text \<open>
  The service keeps its state in the closure variables \<^verbatim>\<open>navigation\<close>, \<^verbatim>\<open>container\<close>,
  \<^verbatim>\<open>current\<close>, \<^verbatim>\<open>buttonPrev\<close>, \<^verbatim>\<open>buttonNext\<close> and \<^verbatim>\<open>interceptors\<close>, and in the
  elements of the page these variables refer to. The embedding passes one record around
  that holds the closure variables together with the part of the page the service reads
  and writes. Every function of the service becomes a function from state to state.

  Modelling decisions:
  \<^item> JavaScript numbers that are indices or pixel counts are \<open>int\<close>. The measurements
    jQuery returns are taken to be whole pixels, small enough that the double
    division and \<^verbatim>\<open>parseInt\<close> of line 377 are exact (truncation towards zero).
  \<^item> A marker carries the three CSS classes the service touches, the
    \<^verbatim>\<open>aria-selected\<close> attribute of each of its \<^verbatim>\<open>[role="tab"]\<close> descendants, and the
    width and paddings of its \<^verbatim>\<open>span\<close> child (one span per marker).
  \<^item> An attribute that is absent reads as \<^verbatim>\<open>undefined\<close>: \<open>None\<close>.
  \<^item> An interceptor is a callback of the host page. It receives the target object and
    may read and change the host's own state (the field \<open>env\<close>), which is threaded
    through the calls; it does not call back into the service, it returns, and it does
    not throw. Each call is recorded in the field \<open>trace\<close>.
\<close>

subsection \<open>Data\<close>

datatype jsval = JUndefined | JNull | JBool bool | JNumber int | JString string

text \<open>The object \<^verbatim>\<open>{index: ..., id: ...}\<close> handed to interceptors and returned by
  \<^verbatim>\<open>getCurrentContainer\<close>.\<close>

record target =
  t_index :: int
  t_id :: "string option"

record marker =
  cls_disabled :: bool
  cls_active :: bool
  cls_visited :: bool
  tabs :: "string option list"
  span_width :: int
  paddingLeft :: int
  paddingRight :: int

record panel =
  checkout_id :: "string option"
  shown :: bool

text \<open>A button: its \<^verbatim>\<open>disabled\<close> attribute, its \<^verbatim>\<open>outerWidth()\<close> and
  \<^verbatim>\<open>outerWidth(true)\<close> when its width is \<^verbatim>\<open>auto\<close>, and the width the service last set
  (\<open>None\<close> while it never did).\<close>

record button =
  btn_disabled :: bool
  outerWidth :: int
  outerWidthMargin :: int
  btn_width :: "int option"

datatype change = BeforeChange | AfterChange

datatype event = Called change nat target

type_synonym 'e interceptor = "target \<Rightarrow> 'e \<Rightarrow> jsval \<times> 'e"

record 'e navigator =
  navigation :: "marker list"
  container :: "panel list"
  current :: int
  buttonPrev :: button
  buttonNext :: button
  interceptors_beforeChange :: "'e interceptor list"
  interceptors_afterChange :: "'e interceptor list"
  location_hash :: string
  wrapper_outerWidth :: int
  wrapper_marginLeft :: int
  wrapper_marginRight :: int
  listening :: bool
  env :: 'e
  trace :: "event list"

text \<open>What \<^verbatim>\<open>init\<close> finds in the page: the elements matched by its four selectors, the
  capture group of the \<^verbatim>\<open>gototab\<close> regular expression on the address (\<open>None\<close> when
  the expression does not match), and which identifiers
  \<^verbatim>\<open>$('[data-plenty-checkout-id="..."]')\<close> finds.\<close>

record document =
  doc_navigation :: "marker list"
  doc_container :: "panel list"
  doc_next :: button
  doc_prev :: button
  doc_gototab :: "string option"
  doc_has_checkout_id :: "string \<Rightarrow> bool"

subsection \<open>Reading and writing the page\<close>

text \<open>\<^verbatim>\<open>$(container[index]).attr('data-plenty-checkout-id')\<close>: \<^verbatim>\<open>undefined\<close> when the index is
  outside the list or the attribute is absent.\<close>

definition attr_checkout_id :: "panel list \<Rightarrow> int \<Rightarrow> string option" where
  "attr_checkout_id cs index =
     (if 0 \<le> index \<and> index < int (length cs) then checkout_id (cs ! nat index) else None)"

text \<open>Assigning \<^verbatim>\<open>window.location.hash\<close>: one leading \<^verbatim>\<open>#\<close> of the assigned string is
  dropped, and the property then reads as the empty string or as \<^verbatim>\<open>#\<close> followed by the
  fragment.\<close>

definition set_hash :: "string \<Rightarrow> string" where
  "set_hash v =
     (let frag = (case v of [] \<Rightarrow> [] | c # cs \<Rightarrow> if c = CHR ''#'' then cs else v)
      in if frag = [] then [] else CHR ''#'' # frag)"

text \<open>A string built from an attribute value: \<^verbatim>\<open>undefined\<close> becomes the text
  \<^verbatim>\<open>undefined\<close>.\<close>

definition to_string :: "string option \<Rightarrow> string" where
  "to_string a = (case a of None \<Rightarrow> ''undefined'' | Some v \<Rightarrow> v)"

text \<open>\<^verbatim>\<open>parseInt(a / b)\<close> for whole \<open>a\<close> and positive whole \<open>b\<close>: the quotient with its
  fraction cut off.\<close>

definition parseInt_quot :: "int \<Rightarrow> int \<Rightarrow> int" where
  "parseInt_quot a b = (if a < 0 then - ((- a) div b) else a div b)"

subsection \<open>fillNavigation (lines 355 to 393)\<close>

text \<open>Lines 364 to 375: the common button width and the width left for the paddings.\<close>

definition buttonWidth :: "'e navigator \<Rightarrow> int" where
  "buttonWidth s =
     (if outerWidth (buttonPrev s) < outerWidth (buttonNext s)
      then outerWidthMargin (buttonNext s) + 1
      else outerWidthMargin (buttonPrev s) + 1)"

definition fill_width :: "'e navigator \<Rightarrow> int" where
  "fill_width s =
     (let width = wrapper_outerWidth s - (2 * buttonWidth s);
          width = width - (wrapper_marginLeft s + wrapper_marginRight s)
      in fold (\<lambda>elem width. width - span_width elem) (navigation s) width)"

text \<open>Lines 380 to 392: the loop over the markers; \<open>diff\<close> is the variable the loop
  counts down.\<close>

fun distribute :: "int \<Rightarrow> int \<Rightarrow> marker list \<Rightarrow> marker list" where
  "distribute padding diff [] = []"
| "distribute padding diff (elem # rest) =
     (let pl = (if diff > 0 then padding + 1 else padding);
          diff = (if diff > 0 then diff - 1 else diff);
          pr = (if diff > 0 then padding + 1 else padding);
          diff = (if diff > 0 then diff - 1 else diff)
      in elem\<lparr>paddingLeft := pl, paddingRight := pr\<rparr> # distribute padding diff rest)"

definition fillNavigation :: "'e navigator \<Rightarrow> 'e navigator" where
  "fillNavigation s =
     (if int (length (navigation s)) \<le> 0 then s
      else
        let bw = buttonWidth s;
            s1 = s\<lparr>buttonNext := (buttonNext s)\<lparr>btn_width := Some bw\<rparr>,
                   buttonPrev := (buttonPrev s)\<lparr>btn_width := Some bw\<rparr>\<rparr>;
            width = fill_width s;
            padding = parseInt_quot width (int (length (navigation s)) * 2);
            diff = width - (int (length (navigation s)) * padding * 2)
        in s1\<lparr>navigation := distribute padding diff (navigation s1)\<rparr>)"

subsection \<open>Interceptors (lines 166 to 203)\<close>

definition beforeChange :: "'e interceptor \<Rightarrow> 'e navigator \<Rightarrow> 'e navigator" where
  "beforeChange interceptor s =
     s\<lparr>interceptors_beforeChange := interceptors_beforeChange s @ [interceptor]\<rparr>"

definition afterChange :: "'e interceptor \<Rightarrow> 'e navigator \<Rightarrow> 'e navigator" where
  "afterChange interceptor s =
     s\<lparr>interceptors_afterChange := interceptors_afterChange s @ [interceptor]\<rparr>"

definition interceptors :: "change \<Rightarrow> 'e navigator \<Rightarrow> 'e interceptor list" where
  "interceptors identifier s =
     (case identifier of
        BeforeChange \<Rightarrow> interceptors_beforeChange s
      | AfterChange \<Rightarrow> interceptors_afterChange s)"

text \<open>The \<^verbatim>\<open>$.each\<close> of lines 194 to 199. The callback returns \<^verbatim>\<open>false\<close>, which ends
  the iteration, exactly when the interceptor returned \<^verbatim>\<open>false\<close>; the first component of
  the result is \<^verbatim>\<open>continueTabChange\<close>. The number is the position of the interceptor
  in its list.\<close>

fun each_interceptor ::
  "change \<Rightarrow> target \<Rightarrow> nat \<Rightarrow> 'e interceptor list \<Rightarrow> 'e navigator \<Rightarrow> bool \<times> 'e navigator" where
  "each_interceptor identifier params i [] s = (True, s)"
| "each_interceptor identifier params i (interceptor # rest) s =
     (let (r, e) = interceptor params (env s);
          s' = s\<lparr>env := e, trace := trace s @ [Called identifier i params]\<rparr>
      in if r = JBool False then (False, s')
         else each_interceptor identifier params (Suc i) rest s')"

definition resolveInterceptors ::
  "change \<Rightarrow> target \<Rightarrow> 'e navigator \<Rightarrow> bool \<times> 'e navigator" where
  "resolveInterceptors identifier params s =
     each_interceptor identifier params 0 (interceptors identifier s) s"

subsection \<open>getCurrentContainer (lines 140 to 149)\<close>

definition getCurrentContainer :: "'e navigator \<Rightarrow> target option" where
  "getCurrentContainer s =
     (if current s \<ge> 0
      then Some \<lparr>t_index = current s, t_id = attr_checkout_id (container s) (current s)\<rparr>
      else None)"

subsection \<open>goTo (lines 211 to 287)\<close>

text \<open>Lines 232 to 252, for the marker at position \<open>i\<close>.\<close>

definition refresh_marker :: "int \<Rightarrow> int \<Rightarrow> marker \<Rightarrow> marker" where
  "refresh_marker cur i elem =
     (let e1 = elem\<lparr>cls_disabled := False, cls_active := False,
                    tabs := map (\<lambda>_. Some ''false'') (tabs elem)\<rparr>
      in if i < cur then e1\<lparr>cls_visited := True\<rparr>
         else if i = cur
           then e1\<lparr>cls_active := True, cls_visited := True,
                   tabs := map (\<lambda>_. Some ''true'') (tabs e1)\<rparr>
         else if i > cur \<and> \<not> cls_visited e1 then e1\<lparr>cls_disabled := True\<rparr>
         else e1)"

definition refresh_navigation :: "int \<Rightarrow> marker list \<Rightarrow> marker list" where
  "refresh_navigation cur nav =
     map (\<lambda>(i, elem). refresh_marker cur (int i) elem) (enumerate 0 nav)"

text \<open>Lines 255 to 268.\<close>

definition refresh_buttons :: "'e navigator \<Rightarrow> 'e navigator" where
  "refresh_buttons s =
     (let s1 = s\<lparr>buttonPrev := (buttonPrev s)\<lparr>btn_disabled := (current s \<le> 0)\<rparr>\<rparr>
      in s1\<lparr>buttonNext :=
              (buttonNext s1)\<lparr>btn_disabled := (current s1 + 1 = int (length (navigation s1)))\<rparr>\<rparr>)"

text \<open>Line 271: nothing is shown when \<^verbatim>\<open>container[current]\<close> is \<^verbatim>\<open>undefined\<close>.\<close>

definition show_current :: "'e navigator \<Rightarrow> 'e navigator" where
  "show_current s =
     (if 0 \<le> current s \<and> current s < int (length (container s))
      then s\<lparr>container :=
               (container s)[nat (current s) := (container s ! nat (current s))\<lparr>shown := True\<rparr>]\<rparr>
      else s)"

text \<open>Lines 274 to 281.\<close>

definition refresh_hash :: "'e navigator \<Rightarrow> 'e navigator" where
  "refresh_hash s =
     (if current s > 0
      then s\<lparr>location_hash :=
               set_hash (to_string (attr_checkout_id (container s) (current s)))\<rparr>
      else if length (location_hash s) > 0 then s\<lparr>location_hash := set_hash []\<rparr>
      else s)"

text \<open>Lines 226 to 281: everything between the guard and the after-interceptors.\<close>

definition render :: "int \<Rightarrow> 'e navigator \<Rightarrow> 'e navigator" where
  "render index s =
     (let s1 = s\<lparr>current := index\<rparr>;
          s2 = s1\<lparr>container := map (\<lambda>p. p\<lparr>shown := False\<rparr>) (container s1)\<rparr>;
          s3 = s2\<lparr>navigation := refresh_navigation (current s2) (navigation s2)\<rparr>;
          s4 = fillNavigation s3;
          s5 = refresh_buttons s4;
          s6 = show_current s5
      in refresh_hash s6)"

definition goTo :: "int \<Rightarrow> bool \<Rightarrow> 'e navigator \<Rightarrow> 'e navigator" where
  "goTo index ignoreInterceptors s =
     (let targetContainer =
            \<lparr>t_index = index, t_id = attr_checkout_id (container s) index\<rparr>;
          contentChanged = (current s \<noteq> index)
      in if contentChanged \<and> \<not> ignoreInterceptors
         then (case resolveInterceptors BeforeChange targetContainer s of
                 (False, s') \<Rightarrow> s'
               | (True, s') \<Rightarrow>
                   snd (resolveInterceptors AfterChange targetContainer (render index s')))
         else if contentChanged
           then snd (resolveInterceptors AfterChange targetContainer (render index s))
         else render index s)"

subsection \<open>continueChange, next, previous, goToID (lines 294 to 348)\<close>

definition continueChange :: "target \<Rightarrow> 'e navigator \<Rightarrow> 'e navigator" where
  "continueChange targetContainer s = goTo (t_index targetContainer) True s"

definition "next" :: "'e navigator \<Rightarrow> 'e navigator" where
  "next s =
     (if current s < int (length (navigation s)) - 1 then goTo (current s + 1) False s else s)"

definition previous :: "'e navigator \<Rightarrow> 'e navigator" where
  "previous s = (if current s > 0 then goTo (current s - 1) False s else s)"

text \<open>The \<^verbatim>\<open>$(container).each\<close> of lines 339 to 344. The \<^verbatim>\<open>return true\<close> of the callback
  does not end the iteration (only \<^verbatim>\<open>false\<close> does) and is not the result of
  \<^verbatim>\<open>goToID\<close>: every panel is compared, in order.\<close>

definition each_container :: "string \<Rightarrow> 'e navigator \<Rightarrow> 'e navigator" where
  "each_container containerID s =
     fold (\<lambda>i st. if checkout_id (container st ! i) = Some containerID
                   then goTo (int i) False st else st)
          [0 ..< length (container s)] s"

definition goToID :: "string \<Rightarrow> 'e navigator \<Rightarrow> bool \<times> 'e navigator" where
  "goToID containerID s =
     (if containerID = ''next'' then (True, next s)
      else if containerID = ''prev'' then (True, previous s)
      else (False, each_container (remove1 (CHR ''#'') containerID) s))"

subsection \<open>init (lines 60 to 133)\<close>

definition init :: "document \<Rightarrow> 'e navigator \<Rightarrow> 'e navigator" where
  "init doc s =
     (let s1 = s\<lparr>navigation := doc_navigation doc, container := doc_container doc,
                 buttonNext := doc_next doc, buttonPrev := doc_prev doc\<rparr>
      in if length (navigation s1) = length (container s1) \<and> length (container s1) > 0
         then
           let s2 = s1\<lparr>container := map (\<lambda>p. p\<lparr>shown := False\<rparr>) (container s1)\<rparr>;
               s3 = s2\<lparr>navigation := map (\<lambda>elem. elem\<lparr>cls_disabled := True\<rparr>) (navigation s2)\<rparr>;
               s4 = s3\<lparr>buttonNext := (buttonNext s3)\<lparr>btn_disabled := True\<rparr>,
                       buttonPrev := (buttonPrev s3)\<lparr>btn_disabled := True\<rparr>,
                       listening := True\<rparr>;
               s5 = (case doc_gototab doc of
                       Some param \<Rightarrow>
                         if length (location_hash s4) = 0 \<and> param \<noteq> []
                            \<and> doc_has_checkout_id doc param
                         then Some (s4\<lparr>location_hash := set_hash param\<rparr>)
                         else None
                     | None \<Rightarrow> None);
               s6 = (case s5 of
                       Some s' \<Rightarrow> s'
                     | None \<Rightarrow>
                         (let (r, s') = goToID (location_hash s4) s4
                          in if \<not> r \<and> current s' \<ge> 0 then goTo (current s') False s'
                             else goTo 0 False s'))
           in fillNavigation s6
         else s1)"

subsection \<open>Notions used to state the properties\<close>

text \<open>The values of the variables \<^verbatim>\<open>padding\<close> and \<^verbatim>\<open>diff\<close> after lines 377 and 378.\<close>

definition base_padding :: "'e navigator \<Rightarrow> int" where
  "base_padding s = parseInt_quot (fill_width s) (int (length (navigation s)) * 2)"

definition spare :: "'e navigator \<Rightarrow> int" where
  "spare s = fill_width s - (int (length (navigation s)) * base_padding s * 2)"

text \<open>The next two functions have no counterpart in the service.
  \<open>host_after fs t e\<close> is the host state after every interceptor of \<open>fs\<close> has been
  called with \<open>t\<close>, starting in \<open>e\<close>; \<open>returned fs t e k\<close> is the value that the
  interceptor at position \<open>k\<close> returns when the ones before it have been called.\<close>

definition host_after :: "'e interceptor list \<Rightarrow> target \<Rightarrow> 'e \<Rightarrow> 'e" where
  "host_after fs t e = foldl (\<lambda>e f. snd (f t e)) e fs"

definition returned :: "'e interceptor list \<Rightarrow> target \<Rightarrow> 'e \<Rightarrow> nat \<Rightarrow> jsval" where
  "returned fs t e k = fst ((fs ! k) t (host_after (take k fs) t e))"

text \<open>The condition under which \<^verbatim>\<open>goTo\<close> leaves through the \<^verbatim>\<open>return\<close> of line 222.\<close>

definition aborted :: "int \<Rightarrow> bool \<Rightarrow> 'e navigator \<Rightarrow> bool" where
  "aborted index ignoreInterceptors s =
     (current s \<noteq> index \<and> \<not> ignoreInterceptors \<and>
      \<not> fst (resolveInterceptors BeforeChange
                \<lparr>t_index = index, t_id = attr_checkout_id (container s) index\<rparr> s))"

subsection \<open>A concrete page\<close>

text \<open>Three steps \<^verbatim>\<open>a\<close>, \<^verbatim>\<open>b\<close>, \<^verbatim>\<open>c\<close>, used to evaluate the functions above. The host
  state of this page is a counter.\<close>

definition example_marker :: "int \<Rightarrow> marker" where
  "example_marker w =
     \<lparr>cls_disabled = False, cls_active = False, cls_visited = False, tabs = [None],
      span_width = w, paddingLeft = 0, paddingRight = 0\<rparr>"

definition example_panel :: "string \<Rightarrow> panel" where
  "example_panel i = \<lparr>checkout_id = Some i, shown = True\<rparr>"

definition example_document :: document where
  "example_document =
     \<lparr>doc_navigation = [example_marker 20, example_marker 21, example_marker 22],
      doc_container = [example_panel ''a'', example_panel ''b'', example_panel ''c''],
      doc_next = \<lparr>btn_disabled = False, outerWidth = 12, outerWidthMargin = 13, btn_width = None\<rparr>,
      doc_prev = \<lparr>btn_disabled = False, outerWidth = 10, outerWidthMargin = 11, btn_width = None\<rparr>,
      doc_gototab = None,
      doc_has_checkout_id = (\<lambda>i. i = ''a'' \<or> i = ''b'' \<or> i = ''c'')\<rparr>"

text \<open>The closure variables as lines 13 to 21 initialise them, in a window 125 pixels
  wide.\<close>

definition example_loaded :: "nat navigator" where
  "example_loaded =
     \<lparr>navigation = [], container = [], current = - 1,
      buttonPrev = \<lparr>btn_disabled = False, outerWidth = 0, outerWidthMargin = 0, btn_width = None\<rparr>,
      buttonNext = \<lparr>btn_disabled = False, outerWidth = 0, outerWidthMargin = 0, btn_width = None\<rparr>,
      interceptors_beforeChange = [], interceptors_afterChange = [],
      location_hash = [], wrapper_outerWidth = 125, wrapper_marginLeft = 2,
      wrapper_marginRight = 3, listening = False, env = 0, trace = []\<rparr>"

text \<open>The same window with the elements of the page bound, before anything is rendered.\<close>

definition example_bound :: "nat navigator" where
  "example_bound =
     example_loaded\<lparr>navigation := doc_navigation example_document,
                    container := doc_container example_document,
                    buttonNext := doc_next example_document,
                    buttonPrev := doc_prev example_document\<rparr>"

text \<open>Three interceptors: one counts its calls in the host state and returns nothing, one
  refuses the step \<^verbatim>\<open>c\<close> (the example of lines 158 to 164), one returns \<^verbatim>\<open>false\<close>
  whatever the target.\<close>

definition count_calls :: "nat interceptor" where
  "count_calls t e = (JUndefined, Suc e)"

definition veto_c :: "nat interceptor" where
  "veto_c t e = (if t_id t = Some ''c'' then JBool False else JBool True, e)"

definition refuse :: "nat interceptor" where
  "refuse t e = (JBool False, e + 10)"

text \<open>The page after the first part of \<^verbatim>\<open>init\<close> (lines 68 to 97), and after the whole of
  \<^verbatim>\<open>init\<close>: step \<^verbatim>\<open>a\<close> is shown.\<close>

definition example_prepared :: "nat navigator" where
  "example_prepared =
     \<lparr>navigation =
        [\<lparr>cls_disabled = True, cls_active = False, cls_visited = False,
          tabs = [None], span_width = 20, paddingLeft = 0, paddingRight = 0\<rparr>,
         \<lparr>cls_disabled = True, cls_active = False, cls_visited = False,
          tabs = [None], span_width = 21, paddingLeft = 0, paddingRight = 0\<rparr>,
         \<lparr>cls_disabled = True, cls_active = False, cls_visited = False,
          tabs = [None], span_width = 22, paddingLeft = 0, paddingRight = 0\<rparr>],
      container =
        [\<lparr>checkout_id = Some ''a'', shown = False\<rparr>,
         \<lparr>checkout_id = Some ''b'', shown = False\<rparr>,
         \<lparr>checkout_id = Some ''c'', shown = False\<rparr>],
      current = - 1,
      buttonPrev = \<lparr>btn_disabled = True, outerWidth = 10, outerWidthMargin = 11, btn_width = None\<rparr>,
      buttonNext = \<lparr>btn_disabled = True, outerWidth = 12, outerWidthMargin = 13, btn_width = None\<rparr>,
      interceptors_beforeChange = [], interceptors_afterChange = [],
      location_hash = [], wrapper_outerWidth = 125, wrapper_marginLeft = 2,
      wrapper_marginRight = 3, listening = True, env = 0, trace = []\<rparr>"

definition example_started :: "nat navigator" where
  "example_started =
     \<lparr>navigation =
        [\<lparr>cls_disabled = False, cls_active = True, cls_visited = True,
          tabs = [Some ''true''], span_width = 20, paddingLeft = 5, paddingRight = 5\<rparr>,
         \<lparr>cls_disabled = True, cls_active = False, cls_visited = False,
          tabs = [Some ''false''], span_width = 21, paddingLeft = 5, paddingRight = 5\<rparr>,
         \<lparr>cls_disabled = True, cls_active = False, cls_visited = False,
          tabs = [Some ''false''], span_width = 22, paddingLeft = 5, paddingRight = 4\<rparr>],
      container =
        [\<lparr>checkout_id = Some ''a'', shown = True\<rparr>,
         \<lparr>checkout_id = Some ''b'', shown = False\<rparr>,
         \<lparr>checkout_id = Some ''c'', shown = False\<rparr>],
      current = 0,
      buttonPrev = \<lparr>btn_disabled = True, outerWidth = 10, outerWidthMargin = 11, btn_width = Some 14\<rparr>,
      buttonNext = \<lparr>btn_disabled = False, outerWidth = 12, outerWidthMargin = 13, btn_width = Some 14\<rparr>,
      interceptors_beforeChange = [], interceptors_afterChange = [],
      location_hash = [], wrapper_outerWidth = 125, wrapper_marginLeft = 2,
      wrapper_marginRight = 3, listening = True, env = 0, trace = []\<rparr>"

text \<open>The started page with three before-interceptors, and with three
  after-interceptors.\<close>

definition example_guarded :: "nat navigator" where
  "example_guarded =
     example_started\<lparr>interceptors_beforeChange := [count_calls, veto_c, count_calls]\<rparr>"

definition example_observed :: "nat navigator" where
  "example_observed =
     example_started\<lparr>interceptors_afterChange := [count_calls, refuse, count_calls]\<rparr>"

text \<open>Two pages \<^verbatim>\<open>init\<close> does not accept: one without steps, one with three markers and
  two panels.\<close>

definition empty_document :: document where
  "empty_document = example_document\<lparr>doc_navigation := [], doc_container := []\<rparr>"

definition short_document :: document where
  "short_document =
     example_document\<lparr>doc_container := [example_panel ''a'', example_panel ''b'']\<rparr>"

section \<open>Properties\<close>

subsection \<open>The padding loop\<close>

lemma length_distribute: "length (distribute p d xs) = length xs"
  by (induction xs arbitrary: d) (simp_all add: Let_def)

lemma distribute_nth:
  "i < length xs \<Longrightarrow>
     paddingLeft (distribute p d xs ! i) = p + (if 2 * int i < d then 1 else 0) \<and>
     paddingRight (distribute p d xs ! i) = p + (if 2 * int i + 1 < d then 1 else 0)"
proof (induction xs arbitrary: d i)
  case Nil
  then show ?case by simp
next
  case (Cons x xs)
  show ?case
  proof (cases i)
    case 0
    then show ?thesis by (simp add: Let_def)
  next
    case (Suc j)
    with Cons.prems have j: "j < length xs" by simp
    show ?thesis using Cons.IH [OF j] Suc by (simp add: Let_def)
  qed
qed

lemma distribute_nth_eq:
  "j < length xs \<Longrightarrow>
     distribute p d xs ! j =
       (xs ! j)\<lparr>paddingLeft := p + (if 2 * int j < d then 1 else 0),
                paddingRight := p + (if 2 * int j + 1 < d then 1 else 0)\<rparr>"
proof (induction xs arbitrary: d j)
  case Nil
  then show ?case by simp
next
  case (Cons x xs)
  show ?case
  proof (cases j)
    case 0
    then show ?thesis by (simp add: Let_def)
  next
    case (Suc j')
    with Cons.prems have j: "j' < length xs" by simp
    show ?thesis using Cons.IH [OF j] Suc by (simp add: Let_def)
  qed
qed

lemma distribute_sum:
  "(\<Sum>m\<leftarrow>distribute p d xs. paddingLeft m + paddingRight m) =
     2 * p * int (length xs) + min (max d 0) (2 * int (length xs))"
  by (induction xs arbitrary: d) (auto simp: Let_def algebra_simps min_def max_def)

lemma distribute_classes:
  "i < length xs \<Longrightarrow>
     cls_active (distribute p d xs ! i) = cls_active (xs ! i) \<and>
     cls_visited (distribute p d xs ! i) = cls_visited (xs ! i) \<and>
     cls_disabled (distribute p d xs ! i) = cls_disabled (xs ! i) \<and>
     tabs (distribute p d xs ! i) = tabs (xs ! i) \<and>
     span_width (distribute p d xs ! i) = span_width (xs ! i)"
proof (induction xs arbitrary: d i)
  case Nil
  then show ?case by simp
next
  case (Cons x xs)
  then show ?case by (cases i) (simp_all add: Let_def)
qed

lemma parseInt_quot_nonneg: "0 \<le> a \<Longrightarrow> parseInt_quot a b = a div b"
  by (simp add: parseInt_quot_def)

lemma fold_span_width:
  "fold (\<lambda>elem width. width - span_width elem) xs w = w - sum_list (map span_width xs)"
  by (induction xs arbitrary: w) simp_all

lemma map_span_width_distribute [simp]:
  "map span_width (distribute p d xs) = map span_width xs"
  by (rule nth_equalityI) (simp_all add: length_distribute distribute_nth_eq)

subsection \<open>What each part of the service leaves alone\<close>

lemma fillNavigation_fields [simp]:
  "current (fillNavigation s) = current s"
  "container (fillNavigation s) = container s"
  "interceptors_beforeChange (fillNavigation s) = interceptors_beforeChange s"
  "interceptors_afterChange (fillNavigation s) = interceptors_afterChange s"
  "location_hash (fillNavigation s) = location_hash s"
  "wrapper_outerWidth (fillNavigation s) = wrapper_outerWidth s"
  "wrapper_marginLeft (fillNavigation s) = wrapper_marginLeft s"
  "wrapper_marginRight (fillNavigation s) = wrapper_marginRight s"
  "listening (fillNavigation s) = listening s"
  "env (fillNavigation s) = env s"
  "trace (fillNavigation s) = trace s"
  "length (navigation (fillNavigation s)) = length (navigation s)"
  by (simp_all add: fillNavigation_def Let_def length_distribute)

lemma fillNavigation_classes:
  "i < length (navigation s) \<Longrightarrow>
     cls_active (navigation (fillNavigation s) ! i) = cls_active (navigation s ! i) \<and>
     cls_visited (navigation (fillNavigation s) ! i) = cls_visited (navigation s ! i) \<and>
     cls_disabled (navigation (fillNavigation s) ! i) = cls_disabled (navigation s ! i)"
  by (simp add: fillNavigation_def Let_def distribute_classes)

lemma fillNavigation_navigation:
  "navigation (fillNavigation s) = distribute (base_padding s) (spare s) (navigation s)"
  by (simp add: fillNavigation_def Let_def base_padding_def spare_def)

lemma fillNavigation_buttons:
  "buttonPrev (fillNavigation s) =
     (if navigation s = [] then buttonPrev s else (buttonPrev s)\<lparr>btn_width := Some (buttonWidth s)\<rparr>)"
  "buttonNext (fillNavigation s) =
     (if navigation s = [] then buttonNext s else (buttonNext s)\<lparr>btn_width := Some (buttonWidth s)\<rparr>)"
  by (simp_all add: fillNavigation_def Let_def)

lemma fill_width_eqI:
  "wrapper_outerWidth s' = wrapper_outerWidth s \<Longrightarrow>
   wrapper_marginLeft s' = wrapper_marginLeft s \<Longrightarrow>
   wrapper_marginRight s' = wrapper_marginRight s \<Longrightarrow>
   buttonWidth s' = buttonWidth s \<Longrightarrow>
   map span_width (navigation s') = map span_width (navigation s) \<Longrightarrow>
   fill_width s' = fill_width s"
  by (simp add: fill_width_def fold_span_width)

lemma each_interceptor_fields:
  "each_interceptor c t i fs s = (ok, s') \<Longrightarrow>
     s' = s\<lparr>env := env s', trace := trace s'\<rparr>"
proof (induction fs arbitrary: i s)
  case Nil
  then show ?case by simp
next
  case (Cons f fs)
  obtain r e where fe: "f t (env s) = (r, e)" by (cases "f t (env s)")
  show ?case
  proof (cases "r = JBool False")
    case True
    with Cons.prems fe show ?thesis by (auto simp: Let_def)
  next
    case False
    with Cons.prems fe
    have "each_interceptor c t (Suc i) fs (s\<lparr>env := e, trace := trace s @ [Called c i t]\<rparr>) = (ok, s')"
      by (simp add: Let_def)
    from Cons.IH [OF this] show ?thesis by simp
  qed
qed

lemma resolveInterceptors_eq:
  "snd (resolveInterceptors c t s) =
     s\<lparr>env := env (snd (resolveInterceptors c t s)),
       trace := trace (snd (resolveInterceptors c t s))\<rparr>"
  using each_interceptor_fields [of c t 0 "interceptors c s" s]
  by (cases "each_interceptor c t 0 (interceptors c s) s") (simp add: resolveInterceptors_def)

lemma resolveInterceptors_fields [simp]:
  "navigation (snd (resolveInterceptors c t s)) = navigation s"
  "container (snd (resolveInterceptors c t s)) = container s"
  "current (snd (resolveInterceptors c t s)) = current s"
  "buttonPrev (snd (resolveInterceptors c t s)) = buttonPrev s"
  "buttonNext (snd (resolveInterceptors c t s)) = buttonNext s"
  "interceptors_beforeChange (snd (resolveInterceptors c t s)) = interceptors_beforeChange s"
  "interceptors_afterChange (snd (resolveInterceptors c t s)) = interceptors_afterChange s"
  "location_hash (snd (resolveInterceptors c t s)) = location_hash s"
  "wrapper_outerWidth (snd (resolveInterceptors c t s)) = wrapper_outerWidth s"
  "wrapper_marginLeft (snd (resolveInterceptors c t s)) = wrapper_marginLeft s"
  "wrapper_marginRight (snd (resolveInterceptors c t s)) = wrapper_marginRight s"
  "listening (snd (resolveInterceptors c t s)) = listening s"
  by (subst resolveInterceptors_eq, simp)+

lemma refresh_buttons_fields [simp]:
  "navigation (refresh_buttons s) = navigation s"
  "container (refresh_buttons s) = container s"
  "current (refresh_buttons s) = current s"
  "interceptors_beforeChange (refresh_buttons s) = interceptors_beforeChange s"
  "interceptors_afterChange (refresh_buttons s) = interceptors_afterChange s"
  "location_hash (refresh_buttons s) = location_hash s"
  "wrapper_outerWidth (refresh_buttons s) = wrapper_outerWidth s"
  "wrapper_marginLeft (refresh_buttons s) = wrapper_marginLeft s"
  "wrapper_marginRight (refresh_buttons s) = wrapper_marginRight s"
  "listening (refresh_buttons s) = listening s"
  "env (refresh_buttons s) = env s"
  "trace (refresh_buttons s) = trace s"
  by (simp_all add: refresh_buttons_def Let_def)

lemma nat_index_less: "0 \<le> i \<Longrightarrow> i < int n \<Longrightarrow> nat i < n"
  by arith

lemma map_update_same: "n < length xs \<Longrightarrow> (map f xs)[n := f (xs ! n)] = map f xs"
  by (simp add: list_update_same_conv)

lemma show_current_fields [simp]:
  "navigation (show_current s) = navigation s"
  "length (container (show_current s)) = length (container s)"
  "map checkout_id (container (show_current s)) = map checkout_id (container s)"
  "current (show_current s) = current s"
  "buttonPrev (show_current s) = buttonPrev s"
  "buttonNext (show_current s) = buttonNext s"
  "interceptors_beforeChange (show_current s) = interceptors_beforeChange s"
  "interceptors_afterChange (show_current s) = interceptors_afterChange s"
  "location_hash (show_current s) = location_hash s"
  "wrapper_outerWidth (show_current s) = wrapper_outerWidth s"
  "wrapper_marginLeft (show_current s) = wrapper_marginLeft s"
  "wrapper_marginRight (show_current s) = wrapper_marginRight s"
  "listening (show_current s) = listening s"
  "env (show_current s) = env s"
  "trace (show_current s) = trace s"
  by (simp_all add: show_current_def map_update map_update_same nat_index_less)

lemma refresh_hash_fields [simp]:
  "navigation (refresh_hash s) = navigation s"
  "container (refresh_hash s) = container s"
  "current (refresh_hash s) = current s"
  "buttonPrev (refresh_hash s) = buttonPrev s"
  "buttonNext (refresh_hash s) = buttonNext s"
  "interceptors_beforeChange (refresh_hash s) = interceptors_beforeChange s"
  "interceptors_afterChange (refresh_hash s) = interceptors_afterChange s"
  "wrapper_outerWidth (refresh_hash s) = wrapper_outerWidth s"
  "wrapper_marginLeft (refresh_hash s) = wrapper_marginLeft s"
  "wrapper_marginRight (refresh_hash s) = wrapper_marginRight s"
  "listening (refresh_hash s) = listening s"
  "env (refresh_hash s) = env s"
  "trace (refresh_hash s) = trace s"
  by (simp_all add: refresh_hash_def)

lemma length_refresh_navigation [simp]:
  "length (refresh_navigation cur nav) = length nav"
  by (simp add: refresh_navigation_def)

lemma refresh_navigation_nth:
  "j < length nav \<Longrightarrow> refresh_navigation cur nav ! j = refresh_marker cur (int j) (nav ! j)"
  by (simp add: refresh_navigation_def nth_enumerate_eq)

lemma refresh_navigation_Nil [simp]: "(refresh_navigation i xs = []) = (xs = [])"
  by (metis length_0_conv length_refresh_navigation)

lemma map_span_width_refresh [simp]:
  "map span_width (refresh_navigation i xs) = map span_width xs"
  by (rule nth_equalityI) (simp_all add: refresh_navigation_nth refresh_marker_def Let_def)

lemma render_fields [simp]:
  "current (render i s) = i"
  "length (navigation (render i s)) = length (navigation s)"
  "length (container (render i s)) = length (container s)"
  "map checkout_id (container (render i s)) = map checkout_id (container s)"
  "interceptors_beforeChange (render i s) = interceptors_beforeChange s"
  "interceptors_afterChange (render i s) = interceptors_afterChange s"
  "wrapper_outerWidth (render i s) = wrapper_outerWidth s"
  "wrapper_marginLeft (render i s) = wrapper_marginLeft s"
  "wrapper_marginRight (render i s) = wrapper_marginRight s"
  "listening (render i s) = listening s"
  "env (render i s) = env s"
  "trace (render i s) = trace s"
  by (simp_all add: render_def Let_def comp_def)

lemma attr_checkout_id_cong:
  "map checkout_id cs = map checkout_id cs' \<Longrightarrow> attr_checkout_id cs i = attr_checkout_id cs' i"
proof -
  assume m: "map checkout_id cs = map checkout_id cs'"
  then have l: "length cs = length cs'" by (rule map_eq_imp_length_eq)
  show ?thesis
  proof (cases "0 \<le> i \<and> i < int (length cs)")
    case True
    then have "nat i < length cs" by (simp add: nat_index_less)
    then have "map checkout_id cs ! nat i = checkout_id (cs ! nat i)"
      and "map checkout_id cs' ! nat i = checkout_id (cs' ! nat i)"
      using l by simp_all
    with m True l show ?thesis by (simp add: attr_checkout_id_def)
  next
    case False
    with l show ?thesis by (auto simp: attr_checkout_id_def)
  qed
qed

lemma render_attr [simp]:
  "attr_checkout_id (container (render i s)) j = attr_checkout_id (container s) j"
  by (rule attr_checkout_id_cong) simp

lemma render_classes:
  assumes "j < length (navigation s)"
  shows "cls_active (navigation (render i s) ! j) = (int j = i)"
    and "cls_visited (navigation (render i s) ! j) = (int j \<le> i \<or> cls_visited (navigation s ! j))"
    and "cls_disabled (navigation (render i s) ! j) = (i < int j \<and> \<not> cls_visited (navigation s ! j))"
  using assms
  by (auto simp: render_def Let_def fillNavigation_classes refresh_navigation_nth refresh_marker_def)

subsection \<open>The loop over the interceptors\<close>

lemma host_after_Cons: "host_after (f # fs) t e = host_after fs t (snd (f t e))"
  by (simp add: host_after_def)

lemma returned_0: "returned (f # fs) t e 0 = fst (f t e)"
  by (simp add: returned_def host_after_def)

lemma returned_Suc: "returned (f # fs) t e (Suc k) = returned fs t (snd (f t e)) k"
  by (simp add: returned_def host_after_def)

lemma calls_Cons:
  "Called c i t # map (\<lambda>j. Called c (Suc i + j) t) [0..<n] = map (\<lambda>j. Called c (i + j) t) [0..<Suc n]"
  by (simp add: upt_conv_Cons map_Suc_upt [symmetric] del: upt_Suc)

lemma each_interceptor_veto:
  "k < length fs \<Longrightarrow> returned fs t (env s) k = JBool False \<Longrightarrow>
   (\<forall>j<k. returned fs t (env s) j \<noteq> JBool False) \<Longrightarrow>
   each_interceptor c t i fs s =
     (False, s\<lparr>env := host_after (take (Suc k) fs) t (env s),
               trace := trace s @ map (\<lambda>j. Called c (i + j) t) [0..<Suc k]\<rparr>)"
proof (induction fs arbitrary: i s k)
  case Nil
  then show ?case by simp
next
  case (Cons f fs)
  obtain r e where fe: "f t (env s) = (r, e)" by (cases "f t (env s)")
  show ?case
  proof (cases k)
    case 0
    with Cons.prems fe show ?thesis
      by (simp add: returned_0 host_after_def Let_def)
  next
    case (Suc k')
    let ?s = "s\<lparr>env := e, trace := trace s @ [Called c i t]\<rparr>"
    from Cons.prems(3) Suc fe have r: "r \<noteq> JBool False"
      by (auto simp: returned_0 dest: spec [of _ 0])
    have 1: "k' < length fs" using Cons.prems(1) Suc by simp
    have 2: "returned fs t (env ?s) k' = JBool False"
      using Cons.prems(2) Suc fe by (simp add: returned_Suc)
    have 3: "\<forall>j<k'. returned fs t (env ?s) j \<noteq> JBool False"
    proof (intro allI impI)
      fix j assume "j < k'"
      then have "Suc j < k" using Suc by simp
      with Cons.prems(3) have "returned (f # fs) t (env s) (Suc j) \<noteq> JBool False" by blast
      then show "returned fs t (env ?s) j \<noteq> JBool False" using fe by (simp add: returned_Suc)
    qed
    have "each_interceptor c t (Suc i) fs ?s =
       (False, ?s\<lparr>env := host_after (take (Suc k') fs) t (env ?s),
               trace := trace ?s @ map (\<lambda>j. Called c (Suc i + j) t) [0..<Suc k']\<rparr>)"
      by (rule Cons.IH [OF 1 2 3])
    then show ?thesis using fe r Suc calls_Cons [of c i t "Suc k'"]
      by (simp add: Let_def host_after_Cons del: upt_Suc)
  qed
qed

lemma each_interceptor_pass:
  "(\<forall>j<length fs. returned fs t (env s) j \<noteq> JBool False) \<Longrightarrow>
   each_interceptor c t i fs s =
     (True, s\<lparr>env := host_after fs t (env s),
              trace := trace s @ map (\<lambda>j. Called c (i + j) t) [0..<length fs]\<rparr>)"
proof (induction fs arbitrary: i s)
  case Nil
  then show ?case by (simp add: host_after_def)
next
  case (Cons f fs)
  obtain r e where fe: "f t (env s) = (r, e)" by (cases "f t (env s)")
  let ?s = "s\<lparr>env := e, trace := trace s @ [Called c i t]\<rparr>"
  from Cons.prems fe have r: "r \<noteq> JBool False"
    by (auto simp: returned_0 dest: spec [of _ 0])
  have 3: "\<forall>j<length fs. returned fs t (env ?s) j \<noteq> JBool False"
  proof (intro allI impI)
    fix j assume "j < length fs"
    then have "Suc j < length (f # fs)" by simp
    with Cons.prems have "returned (f # fs) t (env s) (Suc j) \<noteq> JBool False" by blast
    then show "returned fs t (env ?s) j \<noteq> JBool False" using fe by (simp add: returned_Suc)
  qed
  have "each_interceptor c t (Suc i) fs ?s =
       (True, ?s\<lparr>env := host_after fs t (env ?s),
               trace := trace ?s @ map (\<lambda>j. Called c (Suc i + j) t) [0..<length fs]\<rparr>)"
    by (rule Cons.IH [OF 3])
  then show ?case using fe r calls_Cons [of c i t "length fs"]
    by (simp add: Let_def host_after_Cons del: upt_Suc)
qed

lemma each_interceptor_before_update:
  "each_interceptor c t i fs (s\<lparr>interceptors_beforeChange := bs\<rparr>) =
     (fst (each_interceptor c t i fs s),
      (snd (each_interceptor c t i fs s))\<lparr>interceptors_beforeChange := bs\<rparr>)"
proof (induction fs arbitrary: i s)
  case Nil
  then show ?case by simp
next
  case (Cons f fs)
  obtain r e where fe: "f t (env s) = (r, e)" by (cases "f t (env s)")
  show ?case
  proof (cases "r = JBool False")
    case True
    with fe show ?thesis by (simp add: Let_def)
  next
    case False
    let ?s = "s\<lparr>env := e, trace := trace s @ [Called c i t]\<rparr>"
    have u: "s\<lparr>interceptors_beforeChange := bs, env := e, trace := trace s @ [Called c i t]\<rparr>
          = ?s\<lparr>interceptors_beforeChange := bs\<rparr>"
      by simp
    have "each_interceptor c t i (f # fs) (s\<lparr>interceptors_beforeChange := bs\<rparr>) =
          each_interceptor c t (Suc i) fs (?s\<lparr>interceptors_beforeChange := bs\<rparr>)"
      using fe False by (simp add: Let_def u)
    also have "\<dots> = (fst (each_interceptor c t (Suc i) fs ?s),
        (snd (each_interceptor c t (Suc i) fs ?s))\<lparr>interceptors_beforeChange := bs\<rparr>)"
      by (rule Cons.IH)
    also have "each_interceptor c t (Suc i) fs ?s = each_interceptor c t i (f # fs) s"
      using fe False by (simp add: Let_def)
    finally show ?thesis .
  qed
qed

lemma resolveInterceptors_after_before_update:
  "resolveInterceptors AfterChange t (s\<lparr>interceptors_beforeChange := bs\<rparr>) =
     (fst (resolveInterceptors AfterChange t s),
      (snd (resolveInterceptors AfterChange t s))\<lparr>interceptors_beforeChange := bs\<rparr>)"
  by (simp add: resolveInterceptors_def interceptors_def each_interceptor_before_update)

subsection \<open>The three ways through goTo\<close>

lemma goTo_aborted:
  "aborted index ign s \<Longrightarrow>
   goTo index ign s =
     snd (resolveInterceptors BeforeChange
            \<lparr>t_index = index, t_id = attr_checkout_id (container s) index\<rparr> s)"
  by (auto simp: aborted_def goTo_def Let_def split: prod.splits bool.splits)

lemma goTo_changed:
  "\<not> aborted index ign s \<Longrightarrow> current s \<noteq> index \<Longrightarrow>
   goTo index ign s =
     (let t = \<lparr>t_index = index, t_id = attr_checkout_id (container s) index\<rparr>;
          s1 = (if ign then s else snd (resolveInterceptors BeforeChange t s))
      in snd (resolveInterceptors AfterChange t (render index s1)))"
  by (auto simp: aborted_def goTo_def Let_def split: prod.splits bool.splits)

lemma goTo_same:
  "current s = index \<Longrightarrow> goTo index ign s = render index s"
  by (simp add: goTo_def)

lemma goTo_forced:
  "goTo index True s =
     (if current s \<noteq> index
      then snd (resolveInterceptors AfterChange
                 \<lparr>t_index = index, t_id = attr_checkout_id (container s) index\<rparr> (render index s))
      else render index s)"
  by (simp add: goTo_def Let_def)

lemma goTo_unfold:
  "goTo index ign s =
     (let t = \<lparr>t_index = index, t_id = attr_checkout_id (container s) index\<rparr>
      in if aborted index ign s then snd (resolveInterceptors BeforeChange t s)
         else if current s = index then render index s
         else snd (resolveInterceptors AfterChange t
                (render index (if ign then s else snd (resolveInterceptors BeforeChange t s)))))"
proof (cases "aborted index ign s")
  case True
  then show ?thesis using goTo_aborted [OF True] by (simp add: Let_def)
next
  case na: False
  show ?thesis
  proof (cases "current s = index")
    case True
    then show ?thesis using na goTo_same [OF True] by (simp add: Let_def)
  next
    case False
    show ?thesis
      using goTo_changed [OF na False] na False by (simp add: Let_def)
  qed
qed

lemma goTo_fields [simp]:
  "length (navigation (goTo i ign s)) = length (navigation s)"
  "length (container (goTo i ign s)) = length (container s)"
  "map checkout_id (container (goTo i ign s)) = map checkout_id (container s)"
  "interceptors_beforeChange (goTo i ign s) = interceptors_beforeChange s"
  "interceptors_afterChange (goTo i ign s) = interceptors_afterChange s"
  "wrapper_outerWidth (goTo i ign s) = wrapper_outerWidth s"
  "wrapper_marginLeft (goTo i ign s) = wrapper_marginLeft s"
  "wrapper_marginRight (goTo i ign s) = wrapper_marginRight s"
  "listening (goTo i ign s) = listening s"
  by (simp_all add: goTo_unfold Let_def)

lemma goTo_attr [simp]:
  "attr_checkout_id (container (goTo i ign s)) j = attr_checkout_id (container s) j"
  by (rule attr_checkout_id_cong) simp

lemma goTo_current:
  "\<not> aborted i ign s \<Longrightarrow> current (goTo i ign s) = i"
  "aborted i ign s \<Longrightarrow> current (goTo i ign s) = current s"
  by (simp_all add: goTo_unfold Let_def)

lemma goTo_classes:
  assumes "\<not> aborted i ign s" and "j < length (navigation s)"
  shows "cls_active (navigation (goTo i ign s) ! j) = (int j = i)"
    and "cls_visited (navigation (goTo i ign s) ! j) = (int j \<le> i \<or> cls_visited (navigation s ! j))"
    and "cls_disabled (navigation (goTo i ign s) ! j) = (i < int j \<and> \<not> cls_visited (navigation s ! j))"
  using assms
  by (simp_all add: goTo_unfold Let_def render_classes)

lemma not_aborted_without_interceptors:
  "interceptors_beforeChange s = [] \<Longrightarrow> \<not> aborted i ign s"
  by (simp add: aborted_def resolveInterceptors_def interceptors_def)

subsection \<open>Rendering twice\<close>

lemma render_navigation:
  "navigation (render i s) =
     distribute (base_padding s) (spare s) (refresh_navigation i (navigation s))"
proof -
  let ?s3 = "s\<lparr>current := i, container := map (\<lambda>p. p\<lparr>shown := False\<rparr>) (container s),
               navigation := refresh_navigation i (navigation s)\<rparr>"
  have w: "fill_width ?s3 = fill_width s"
    by (rule fill_width_eqI) (simp_all add: buttonWidth_def)
  have "navigation (render i s) = navigation (fillNavigation ?s3)"
    by (simp add: render_def Let_def)
  also have "\<dots> = distribute (base_padding ?s3) (spare ?s3) (refresh_navigation i (navigation s))"
    by (simp add: fillNavigation_navigation)
  also have "base_padding ?s3 = base_padding s" by (simp add: base_padding_def w)
  also have "spare ?s3 = spare s" by (simp add: spare_def w base_padding_def)
  finally show ?thesis .
qed

lemma hide_shown_again:
  "(map (\<lambda>p. p\<lparr>shown := False\<rparr>) ((map (\<lambda>p. p\<lparr>shown := False\<rparr>) cs)[n := x]))[n := y] =
     (map (\<lambda>p. p\<lparr>shown := False\<rparr>) cs)[n := y]"
  by (simp add: map_update comp_def)

lemma render_buttons:
  "buttonPrev (render i s) =
     (if navigation s = [] then buttonPrev s
      else (buttonPrev s)\<lparr>btn_width := Some (buttonWidth s)\<rparr>)\<lparr>btn_disabled := (i \<le> 0)\<rparr>"
  "buttonNext (render i s) =
     (if navigation s = [] then buttonNext s
      else (buttonNext s)\<lparr>btn_width := Some (buttonWidth s)\<rparr>)
       \<lparr>btn_disabled := (i + 1 = int (length (navigation s)))\<rparr>"
  by (simp_all add: render_def Let_def refresh_buttons_def fillNavigation_buttons buttonWidth_def)

lemma render_container:
  "container (render i s) =
     (let cs = map (\<lambda>p. p\<lparr>shown := False\<rparr>) (container s)
      in if 0 \<le> i \<and> i < int (length (container s))
         then cs[nat i := (cs ! nat i)\<lparr>shown := True\<rparr>] else cs)"
  by (simp add: render_def Let_def show_current_def)

lemma render_location_hash:
  "location_hash (render i s) =
     (if i > 0 then set_hash (to_string (attr_checkout_id (container s) i))
      else if location_hash s \<noteq> [] then set_hash [] else location_hash s)"
proof -
  have "attr_checkout_id (container (render i s)) i = attr_checkout_id (container s) i"
    by simp
  then show ?thesis
    by (simp add: render_def Let_def refresh_hash_def show_current_def attr_checkout_id_def
        nat_index_less)
qed

lemma render_buttonWidth [simp]: "buttonWidth (render i s) = buttonWidth s"
  by (simp add: buttonWidth_def render_buttons)

lemma render_fill_width [simp]: "fill_width (render i s) = fill_width s"
  by (rule fill_width_eqI) (simp_all add: render_navigation)

lemma render_navigation_Nil: "(navigation (render i s) = []) = (navigation s = [])"
  using render_fields(2) [of i s] by (simp only: length_0_conv [symmetric])

lemma render_idem: "render i (render i s) = render i s"
proof (rule navigator.equality)
  show "navigation (render i (render i s)) = navigation (render i s)"
  proof (rule nth_equalityI)
    show "length (navigation (render i (render i s))) = length (navigation (render i s))"
      by simp
  next
    fix j assume "j < length (navigation (render i (render i s)))"
    then have j: "j < length (navigation s)" by simp
    have bp: "base_padding (render i s) = base_padding s"
      by (simp add: base_padding_def)
    have sp: "spare (render i s) = spare s"
      by (simp add: spare_def bp)
    show "navigation (render i (render i s)) ! j = navigation (render i s) ! j"
      using j
      by (simp add: render_navigation [of i "render i s"] bp sp)
         (simp add: render_navigation distribute_nth_eq length_distribute
            refresh_navigation_nth refresh_marker_def Let_def)
  qed
next
  show "container (render i (render i s)) = container (render i s)"
    by (simp add: render_container [of i "render i s"])
       (simp add: render_container Let_def nat_index_less hide_shown_again comp_def)
next
  show "buttonPrev (render i (render i s)) = buttonPrev (render i s)"
    by (simp add: render_buttons [of i "render i s"])
       (simp add: render_buttons render_navigation_Nil)
next
  show "buttonNext (render i (render i s)) = buttonNext (render i s)"
    by (simp add: render_buttons [of i "render i s"])
       (simp add: render_buttons render_navigation_Nil)
next
  show "location_hash (render i (render i s)) = location_hash (render i s)"
    by (simp add: render_location_hash [of i "render i s"])
       (simp add: render_location_hash set_hash_def)
qed simp_all

lemma fillNavigation_before_update:
  "fillNavigation (s\<lparr>interceptors_beforeChange := bs\<rparr>) =
     (fillNavigation s)\<lparr>interceptors_beforeChange := bs\<rparr>"
  by (simp add: fillNavigation_def Let_def fill_width_def buttonWidth_def)

lemma refresh_buttons_before_update:
  "refresh_buttons (s\<lparr>interceptors_beforeChange := bs\<rparr>) =
     (refresh_buttons s)\<lparr>interceptors_beforeChange := bs\<rparr>"
  by (simp add: refresh_buttons_def Let_def)

lemma show_current_before_update:
  "show_current (s\<lparr>interceptors_beforeChange := bs\<rparr>) =
     (show_current s)\<lparr>interceptors_beforeChange := bs\<rparr>"
  by (simp add: show_current_def)

lemma refresh_hash_before_update:
  "refresh_hash (s\<lparr>interceptors_beforeChange := bs\<rparr>) =
     (refresh_hash s)\<lparr>interceptors_beforeChange := bs\<rparr>"
  by (simp add: refresh_hash_def)

lemma render_before_update:
  "render i (s\<lparr>interceptors_beforeChange := bs\<rparr>) = (render i s)\<lparr>interceptors_beforeChange := bs\<rparr>"
proof -
  let ?a = "\<lambda>s :: 'a navigator. s\<lparr>current := i\<rparr>"
  let ?b = "\<lambda>s :: 'a navigator. s\<lparr>container := map (\<lambda>p. p\<lparr>shown := False\<rparr>) (container s)\<rparr>"
  let ?c = "\<lambda>s :: 'a navigator. s\<lparr>navigation := refresh_navigation (current s) (navigation s)\<rparr>"
  have r: "\<And>s :: 'a navigator. render i s =
      refresh_hash (show_current (refresh_buttons (fillNavigation (?c (?b (?a s))))))"
    by (simp add: render_def Let_def)
  have abc: "?c (?b (?a (s\<lparr>interceptors_beforeChange := bs\<rparr>))) =
      (?c (?b (?a s)))\<lparr>interceptors_beforeChange := bs\<rparr>"
    by simp
  show ?thesis
    unfolding r abc fillNavigation_before_update refresh_buttons_before_update
      show_current_before_update refresh_hash_before_update ..
qed

subsection \<open>The search of goToID\<close>

lemma each_container_fold:
  "map checkout_id (container s) = ids \<Longrightarrow> \<forall>i \<in> set is. i < length ids \<Longrightarrow>
   fold (\<lambda>i st. if checkout_id (container st ! i) = Some c
                  then goTo (int i) False st else st) is s =
   fold (\<lambda>i. goTo (int i) False) (filter (\<lambda>i. ids ! i = Some c) is) s"
proof (induction "is" arbitrary: s)
  case Nil
  then show ?case by simp
next
  case (Cons i "is")
  have i: "i < length (container s)" using Cons.prems by auto
  then have "map checkout_id (container s) ! i = checkout_id (container s ! i)" by simp
  then have eq: "checkout_id (container s ! i) = ids ! i" using Cons.prems(1) by simp
  have rest: "\<forall>i \<in> set is. i < length ids" using Cons.prems(2) by simp
  show ?case
  proof (cases "ids ! i = Some c")
    case True
    have "map checkout_id (container (goTo (int i) False s)) = ids"
      using Cons.prems(1) by simp
    from Cons.IH [OF this rest] True eq show ?thesis by simp
  next
    case False
    from Cons.IH [OF Cons.prems(1) rest] False eq show ?thesis by simp
  qed
qed

lemma each_container_matches:
  "each_container c s =
     fold (\<lambda>i. goTo (int i) False)
       (filter (\<lambda>i. checkout_id (container s ! i) = Some c) [0 ..< length (container s)]) s"
proof -
  have "filter (\<lambda>i. map checkout_id (container s) ! i = Some c) [0 ..< length (container s)]
      = filter (\<lambda>i. checkout_id (container s ! i) = Some c) [0 ..< length (container s)]"
    by (rule filter_cong) simp_all
  then show ?thesis
    using each_container_fold [of s "map checkout_id (container s)" "[0 ..< length (container s)]" c]
    by (simp add: each_container_def)
qed

lemma filter_upt_none: "(\<forall>i<n. \<not> P i) \<Longrightarrow> filter P [0..<n] = []"
  by (simp add: filter_empty_conv)

lemma filter_upt_one: "k < n \<Longrightarrow> P k \<Longrightarrow> (\<forall>i<n. i \<noteq> k \<longrightarrow> \<not> P i) \<Longrightarrow> filter P [0..<n] = [k]"
proof (induction n)
  case 0
  then show ?case by simp
next
  case (Suc n)
  show ?case
  proof (cases "k = n")
    case True
    with Suc.prems have "\<forall>i<n. \<not> P i" by auto
    then have "filter P [0..<n] = []" by (rule filter_upt_none)
    with True Suc.prems(2) show ?thesis by simp
  next
    case False
    with Suc.prems have "k < n" and "\<not> P n" and "\<forall>i<n. i \<noteq> k \<longrightarrow> \<not> P i" by auto
    with Suc.IH Suc.prems(2) show ?thesis by simp
  qed
qed

subsection \<open>The concrete page, evaluated\<close>

lemmas example_defs =
  example_bound_def example_loaded_def example_document_def example_marker_def
  example_panel_def

lemma fill_width_example_prepared: "fill_width example_prepared = 29"
  by (simp add: fill_width_def buttonWidth_def example_prepared_def)

lemma render_example_prepared: "render 0 example_prepared = example_started"
proof (rule navigator.equality)
  have "base_padding example_prepared = 4" and "spare example_prepared = 5"
    by (simp_all add: base_padding_def spare_def fill_width_example_prepared parseInt_quot_def)
       (simp_all add: example_prepared_def)
  then show "navigation (render 0 example_prepared) = navigation example_started"
    by (simp add: render_navigation)
       (simp add: example_prepared_def example_started_def refresh_navigation_def
          refresh_marker_def Let_def)
next
  show "container (render 0 example_prepared) = container example_started"
    by (simp add: render_container) (simp add: example_prepared_def example_started_def)
next
  show "buttonPrev (render 0 example_prepared) = buttonPrev example_started"
    by (simp add: render_buttons) (simp add: example_prepared_def example_started_def buttonWidth_def)
next
  show "buttonNext (render 0 example_prepared) = buttonNext example_started"
    by (simp add: render_buttons) (simp add: example_prepared_def example_started_def buttonWidth_def)
next
  show "location_hash (render 0 example_prepared) = location_hash example_started"
    by (simp add: render_location_hash) (simp add: example_prepared_def example_started_def)
qed (simp_all add: example_prepared_def example_started_def)

lemma goTo_example_prepared: "goTo 0 False example_prepared = example_started"
proof -
  have "interceptors_beforeChange example_prepared = []"
    and "interceptors_afterChange example_prepared = []"
    and "current example_prepared \<noteq> 0"
    by (simp_all add: example_prepared_def)
  then show ?thesis
    by (simp add: goTo_def Let_def resolveInterceptors_def interceptors_def render_example_prepared)
qed

lemma goToID_example_prepared: "goToID [] example_prepared = (False, example_prepared)"
proof -
  have "filter (\<lambda>i. checkout_id (container example_prepared ! i) = Some [])
          [0 ..< length (container example_prepared)] = []"
    by (rule filter_upt_none) (simp add: example_prepared_def less_Suc_eq numeral_3_eq_3)
  then show ?thesis by (simp add: goToID_def each_container_matches)
qed

lemma fill_width_example_started: "fill_width example_started = 29"
  by (simp add: fill_width_def buttonWidth_def example_started_def)

lemma fillNavigation_example_started: "fillNavigation example_started = example_started"
  by (simp add: fillNavigation_def Let_def fill_width_example_started parseInt_quot_def)
     (simp add: example_started_def buttonWidth_def)

lemma init_example: "init example_document example_loaded = example_started"
proof -
  have "init example_document example_loaded =
      fillNavigation (case goToID (location_hash example_prepared) example_prepared of
        (r, s') \<Rightarrow> if \<not> r \<and> current s' \<ge> 0 then goTo (current s') False s' else goTo 0 False s')"
    by (simp add: init_def Let_def example_defs example_prepared_def)
  also have "location_hash example_prepared = []" by (simp add: example_prepared_def)
  finally show ?thesis
    by (simp add: goToID_example_prepared goTo_example_prepared fillNavigation_example_started)
       (simp add: example_prepared_def)
qed

lemma example_started_fields:
  "current example_started = 0"
  "env example_started = 0"
  "trace example_started = []"
  "interceptors_beforeChange example_started = []"
  "interceptors_afterChange example_started = []"
  "length (container example_started) = 3"
  "length (navigation example_started) = 3"
  "map checkout_id (container example_started) = [Some ''a'', Some ''b'', Some ''c'']"
  by (simp_all add: example_started_def)

lemma example_guarded_fields:
  "current example_guarded = 0"
  "env example_guarded = 0"
  "trace example_guarded = []"
  "interceptors_beforeChange example_guarded = [count_calls, veto_c, count_calls]"
  "attr_checkout_id (container example_guarded) 1 = Some ''b''"
  "attr_checkout_id (container example_guarded) 2 = Some ''c''"
  by (simp_all add: example_guarded_def example_started_def attr_checkout_id_def)

lemma example_observed_fields:
  "current example_observed = 0"
  "env example_observed = 0"
  "trace example_observed = []"
  "interceptors_beforeChange example_observed = []"
  "interceptors_afterChange example_observed = [count_calls, refuse, count_calls]"
  "attr_checkout_id (container example_observed) 1 = Some ''b''"
  by (simp_all add: example_observed_def example_started_def attr_checkout_id_def)

lemma resolve_before_example_observed:
  "resolveInterceptors BeforeChange t example_observed = (True, example_observed)"
  by (simp add: resolveInterceptors_def interceptors_def example_observed_fields)

lemma init_empty_document:
  "init empty_document example_loaded =
     example_loaded\<lparr>navigation := [], container := [],
                    buttonNext := doc_next example_document, buttonPrev := doc_prev example_document\<rparr>"
  by (simp add: init_def Let_def empty_document_def)

lemma init_short_document:
  "init short_document example_loaded =
     example_loaded\<lparr>navigation := doc_navigation example_document,
                    container := [example_panel ''a'', example_panel ''b''],
                    buttonNext := doc_next example_document, buttonPrev := doc_prev example_document\<rparr>"
  by (simp add: init_def Let_def short_document_def) (simp add: example_document_def)

subsection \<open>A veto of a before-interceptor\<close>

text \<open>
  Claim C1. Take a call \<^verbatim>\<open>goTo(index)\<close> with \<open>current \<noteq> index\<close> that does not ignore
  the interceptors; \<open>t\<close> is the target object, \<open>bs\<close> the registered
  before-interceptors. If the interceptor at some position \<open>m\<close> returns exactly
  \<^verbatim>\<open>false\<close>, the transition aborts: there is a position \<open>k \<le> m\<close> (the first veto)
  such that exactly the interceptors \<open>0, \<dots>, k\<close> are called, none registered after
  it, and the state after the call is the state before it apart from the host state
  and the record of these calls. So \<open>current\<close>, the panels, the markers, the buttons
  and the hash are untouched and no after-interceptor is called. If no
  before-interceptor returns exactly \<^verbatim>\<open>false\<close> (whatever else they return,
  \<^verbatim>\<open>undefined\<close> included), all of them are called, the page is rendered for
  \<open>index\<close>, the after-interceptors are resolved, and \<open>current\<close> is \<open>index\<close>.
\<close>

theorem goTo_before_veto:
  assumes "current s \<noteq> index"
    and "t = \<lparr>t_index = index, t_id = attr_checkout_id (container s) index\<rparr>"
    and "bs = interceptors_beforeChange s"
  shows "(\<forall>m < length bs. returned bs t (env s) m = JBool False \<longrightarrow>
            (\<exists>k \<le> m. goTo index False s =
               s\<lparr>env := host_after (take (Suc k) bs) t (env s),
                 trace := trace s @ map (\<lambda>j. Called BeforeChange j t) [0..<Suc k]\<rparr>)) \<and>
         ((\<forall>m < length bs. returned bs t (env s) m \<noteq> JBool False) \<longrightarrow>
            current (goTo index False s) = index \<and>
            goTo index False s =
              snd (resolveInterceptors AfterChange t
                (render index
                  (s\<lparr>env := host_after bs t (env s),
                     trace := trace s @ map (\<lambda>j. Called BeforeChange j t) [0..<length bs]\<rparr>))))"
proof (intro conjI allI impI)
  fix m assume m: "m < length bs" and f: "returned bs t (env s) m = JBool False"
  let ?P = "\<lambda>k. returned bs t (env s) k = JBool False"
  define k where "k = (LEAST k. ?P k)"
  have Pk: "?P k" unfolding k_def using f by (rule LeastI)
  have km: "k \<le> m" unfolding k_def using f by (rule Least_le)
  have first: "\<forall>j<k. \<not> ?P j" unfolding k_def using not_less_Least by blast
  have kl: "k < length bs" using km m by simp
  have r: "resolveInterceptors BeforeChange t s =
     (False, s\<lparr>env := host_after (take (Suc k) bs) t (env s),
               trace := trace s @ map (\<lambda>j. Called BeforeChange (0 + j) t) [0..<Suc k]\<rparr>)"
    unfolding resolveInterceptors_def interceptors_def
    using each_interceptor_veto [of k bs t s BeforeChange 0] kl Pk first assms(3)
    by simp
  then have "aborted index False s" using assms(1,2) by (simp add: aborted_def)
  from goTo_aborted [OF this] r assms(2)
  have "goTo index False s =
     s\<lparr>env := host_after (take (Suc k) bs) t (env s),
       trace := trace s @ map (\<lambda>j. Called BeforeChange j t) [0..<Suc k]\<rparr>"
    by simp
  with km show "\<exists>k \<le> m. goTo index False s =
               s\<lparr>env := host_after (take (Suc k) bs) t (env s),
                 trace := trace s @ map (\<lambda>j. Called BeforeChange j t) [0..<Suc k]\<rparr>"
    by blast
next
  assume a: "\<forall>m < length bs. returned bs t (env s) m \<noteq> JBool False"
  have r: "resolveInterceptors BeforeChange t s =
     (True, s\<lparr>env := host_after bs t (env s),
              trace := trace s @ map (\<lambda>j. Called BeforeChange (0 + j) t) [0..<length bs]\<rparr>)"
    unfolding resolveInterceptors_def interceptors_def
    using each_interceptor_pass [of bs t s BeforeChange 0] a assms(3)
    by simp
  then have na: "\<not> aborted index False s" using assms(2) by (simp add: aborted_def)
  then show "current (goTo index False s) = index" by (rule goTo_current)
  show "goTo index False s =
              snd (resolveInterceptors AfterChange t
                (render index
                  (s\<lparr>env := host_after bs t (env s),
                     trace := trace s @ map (\<lambda>j. Called BeforeChange j t) [0..<length bs]\<rparr>)))"
    using goTo_changed [OF na assms(1)] r assms(2) by (simp add: Let_def)
qed

text \<open>On the guarded page the second interceptor refuses step \<^verbatim>\<open>c\<close> and the
  first returns \<^verbatim>\<open>undefined\<close>: \<^verbatim>\<open>goTo(2)\<close> aborts, \<^verbatim>\<open>goTo(1)\<close> proceeds.\<close>

theorem goTo_before_veto_witness:
  "current example_guarded \<noteq> 2 \<and>
   returned [count_calls, veto_c, count_calls] \<lparr>t_index = 2, t_id = Some ''c''\<rparr> 0 1 = JBool False \<and>
   (\<exists>k \<le> 1. goTo 2 False example_guarded =
      example_guarded\<lparr>env := host_after (take (Suc k) [count_calls, veto_c, count_calls])
                              \<lparr>t_index = 2, t_id = Some ''c''\<rparr> 0,
                     trace := [] @ map (\<lambda>j. Called BeforeChange j \<lparr>t_index = 2, t_id = Some ''c''\<rparr>)
                                     [0..<Suc k]\<rparr>) \<and>
   returned [count_calls, veto_c, count_calls] \<lparr>t_index = 1, t_id = Some ''b''\<rparr> 0 0
     = JUndefined \<and>
   returned [count_calls, veto_c, count_calls] \<lparr>t_index = 1, t_id = Some ''b''\<rparr> 0 1
     = JBool True \<and>
   returned [count_calls, veto_c, count_calls] \<lparr>t_index = 1, t_id = Some ''b''\<rparr> 0 2
     = JUndefined \<and>
   current (goTo 1 False example_guarded) = 1"
proof -
  let ?bs = "[count_calls, veto_c, count_calls]"
  let ?c = "\<lparr>t_index = 2, t_id = Some ''c''\<rparr>"
  let ?b = "\<lparr>t_index = 1, t_id = Some ''b''\<rparr>"
  have c2: "current example_guarded \<noteq> 2" and c1: "current example_guarded \<noteq> 1"
    by (simp_all add: example_guarded_fields)
  have t2: "?c = \<lparr>t_index = 2, t_id = attr_checkout_id (container example_guarded) 2\<rparr>"
    and t1: "?b = \<lparr>t_index = 1, t_id = attr_checkout_id (container example_guarded) 1\<rparr>"
    by (simp_all add: example_guarded_fields)
  have bs: "?bs = interceptors_beforeChange example_guarded"
    by (simp add: example_guarded_fields)
  have r: "returned ?bs ?c 0 1 = JBool False"
    by (simp add: returned_def host_after_def count_calls_def veto_c_def)
  have p: "\<forall>m < 3. returned ?bs ?b 0 m \<noteq> JBool False"
    by (simp add: returned_def host_after_def count_calls_def veto_c_def less_Suc_eq numeral_3_eq_3)
  have veto: "\<exists>k \<le> 1. goTo 2 False example_guarded =
      example_guarded\<lparr>env := host_after (take (Suc k) ?bs) ?c 0,
                     trace := [] @ map (\<lambda>j. Called BeforeChange j ?c) [0..<Suc k]\<rparr>"
    using goTo_before_veto [OF c2 t2 bs] r by (simp add: example_guarded_fields)
  have pass: "current (goTo 1 False example_guarded) = 1"
    using goTo_before_veto [OF c1 t1 bs] p by (simp add: example_guarded_fields)
  have q: "returned ?bs ?b 0 0 = JUndefined" "returned ?bs ?b 0 1 = JBool True"
    "returned ?bs ?b 0 2 = JUndefined"
    by (simp_all add: returned_def host_after_def count_calls_def veto_c_def)
  from c2 r veto q pass show ?thesis by blast
qed

subsection \<open>The current container after a transition\<close>

text \<open>
  Claim C2. For an index \<open>i\<close> with \<open>0 \<le> i < N\<close>, after a call \<^verbatim>\<open>goTo(i)\<close> that is
  not aborted, \<^verbatim>\<open>getCurrentContainer()\<close> returns the object with index \<open>i\<close> and the
  identifier attribute of panel \<open>i\<close>.
\<close>

theorem goTo_getCurrentContainer:
  assumes "0 \<le> i" and "i < int (length (container s))" and "\<not> aborted i ign s"
  shows "getCurrentContainer (goTo i ign s) =
           Some \<lparr>t_index = i, t_id = checkout_id (container s ! nat i)\<rparr>"
  using assms by (simp add: getCurrentContainer_def goTo_current) (simp add: attr_checkout_id_def)

theorem goTo_getCurrentContainer_witness:
  "(0::int) \<le> 1 \<and> 1 < int (length (container example_started)) \<and>
   \<not> aborted 1 False example_started \<and>
   getCurrentContainer (goTo 1 False example_started) = Some \<lparr>t_index = 1, t_id = Some ''b''\<rparr>"
proof -
  have h1: "(0::int) \<le> 1" by simp
  have h2: "1 < int (length (container example_started))"
    by (simp add: example_started_fields)
  have h3: "\<not> aborted 1 False example_started"
    by (rule not_aborted_without_interceptors) (simp add: example_started_fields)
  have "checkout_id (container example_started ! nat 1) = Some ''b''"
    by (simp add: example_started_def)
  with goTo_getCurrentContainer [OF h1 h2 h3] h1 h2 h3 show ?thesis by simp
qed

subsection \<open>The classes of the markers after a transition\<close>

text \<open>
  Claim C3. After a call \<^verbatim>\<open>goTo(i)\<close> to a valid index that is not aborted, the marker
  at \<open>i\<close> has the class \<^verbatim>\<open>active\<close> and no other marker has it; every marker
  before \<open>i\<close> has the class \<^verbatim>\<open>visited\<close>; every marker after \<open>i\<close> that did not
  have the class \<^verbatim>\<open>visited\<close> before the call has the class \<^verbatim>\<open>disabled\<close>.
\<close>

theorem goTo_marker_classes:
  assumes "0 \<le> i" and "i < int (length (navigation s))" and "\<not> aborted i ign s"
  shows "(let nav' = navigation (goTo i ign s)
          in length nav' = length (navigation s) \<and>
             cls_active (nav' ! nat i) \<and>
             (\<forall>j < length nav'. cls_active (nav' ! j) \<longrightarrow> int j = i) \<and>
             (\<forall>j < length nav'. int j < i \<longrightarrow> cls_visited (nav' ! j)) \<and>
             (\<forall>j < length nav'. i < int j \<and> \<not> cls_visited (navigation s ! j)
                  \<longrightarrow> cls_disabled (nav' ! j)))"
proof -
  have "nat i < length (navigation s)" using assms(1,2) by (rule nat_index_less)
  then have "cls_active (navigation (goTo i ign s) ! nat i)"
    using assms(1,3) by (simp add: goTo_classes)
  then show ?thesis using assms(3) by (simp add: Let_def goTo_classes)
qed

theorem goTo_marker_classes_witness:
  "(0::int) \<le> 1 \<and> 1 < int (length (navigation example_started)) \<and>
   \<not> aborted 1 False example_started \<and>
   (let nav' = navigation (goTo 1 False example_started)
    in length nav' = length (navigation example_started) \<and>
       cls_active (nav' ! nat 1) \<and>
       (\<forall>j < length nav'. cls_active (nav' ! j) \<longrightarrow> int j = 1) \<and>
       (\<forall>j < length nav'. int j < 1 \<longrightarrow> cls_visited (nav' ! j)) \<and>
       (\<forall>j < length nav'. 1 < int j \<and> \<not> cls_visited (navigation example_started ! j)
            \<longrightarrow> cls_disabled (nav' ! j))) \<and>
   \<not> cls_visited (navigation example_started ! 2) \<and>
   cls_disabled (navigation (goTo 1 False example_started) ! 2)"
proof -
  have h1: "(0::int) \<le> 1" by simp
  have h2: "1 < int (length (navigation example_started))"
    by (simp add: example_started_fields)
  have h3: "\<not> aborted 1 False example_started"
    by (rule not_aborted_without_interceptors) (simp add: example_started_fields)
  note c = goTo_marker_classes [OF h1 h2 h3]
  have v: "\<not> cls_visited (navigation example_started ! 2)"
    by (simp add: example_started_def)
  have d: "cls_disabled (navigation (goTo 1 False example_started) ! 2)"
    using c v by (simp add: Let_def example_started_fields)
  from h1 h2 h3 c v d show ?thesis by blast
qed

subsection \<open>The after-interceptors\<close>

text \<open>
  Claim C4, as the code has it. In a call \<^verbatim>\<open>goTo(index)\<close> with \<open>current \<noteq> index\<close>
  that is not aborted, let \<open>r\<close> be the page rendered for \<open>index\<close> and \<open>as\<close> the
  registered after-interceptors. They are called after the rendering, in registration
  order, with the target object, up to and including the first one that returns exactly
  \<^verbatim>\<open>false\<close>; all of them are called when none returns \<^verbatim>\<open>false\<close>. Their return
  values change nothing else: the resulting state is \<open>r\<close> with the host state and
  the record of the calls made. (The claim says that a \<^verbatim>\<open>false\<close> does not keep the
  later after-interceptors from running; \<^verbatim>\<open>resolveInterceptors\<close> leaves its loop at
  the first \<^verbatim>\<open>false\<close> for both lists.)
\<close>

theorem goTo_after_interceptors:
  assumes "current s \<noteq> index" and "\<not> aborted index ign s"
    and "t = \<lparr>t_index = index, t_id = attr_checkout_id (container s) index\<rparr>"
    and "r = render index (if ign then s else snd (resolveInterceptors BeforeChange t s))"
    and "as = interceptors_afterChange s"
  shows "(\<forall>m < length as. returned as t (env r) m = JBool False \<longrightarrow>
            (\<forall>j < m. returned as t (env r) j \<noteq> JBool False) \<longrightarrow>
            goTo index ign s =
              r\<lparr>env := host_after (take (Suc m) as) t (env r),
                trace := trace r @ map (\<lambda>j. Called AfterChange j t) [0..<Suc m]\<rparr>) \<and>
         ((\<forall>m < length as. returned as t (env r) m \<noteq> JBool False) \<longrightarrow>
            goTo index ign s =
              r\<lparr>env := host_after as t (env r),
                trace := trace r @ map (\<lambda>j. Called AfterChange j t) [0..<length as]\<rparr>)"
proof -
  have as: "interceptors AfterChange r = as"
    using assms(4,5) by (simp add: interceptors_def)
  have g: "goTo index ign s = snd (resolveInterceptors AfterChange t r)"
    using goTo_changed [OF assms(2,1)] assms(3,4) by (simp add: Let_def)
  show ?thesis
  proof (intro conjI allI impI)
    fix m assume "m < length as" and "returned as t (env r) m = JBool False"
      and "\<forall>j < m. returned as t (env r) j \<noteq> JBool False"
    then show "goTo index ign s =
              r\<lparr>env := host_after (take (Suc m) as) t (env r),
                trace := trace r @ map (\<lambda>j. Called AfterChange j t) [0..<Suc m]\<rparr>"
      using each_interceptor_veto [of m as t r AfterChange 0] g as
      by (simp add: resolveInterceptors_def)
  next
    assume "\<forall>m < length as. returned as t (env r) m \<noteq> JBool False"
    then show "goTo index ign s =
              r\<lparr>env := host_after as t (env r),
                trace := trace r @ map (\<lambda>j. Called AfterChange j t) [0..<length as]\<rparr>"
      using each_interceptor_pass [of as t r AfterChange 0] g as
      by (simp add: resolveInterceptors_def)
  qed
qed

theorem goTo_after_interceptors_witness:
  "current example_observed \<noteq> 1 \<and> \<not> aborted 1 False example_observed \<and>
   returned [count_calls, refuse, count_calls] \<lparr>t_index = 1, t_id = Some ''b''\<rparr> 0 1 = JBool False \<and>
   returned [count_calls, refuse, count_calls] \<lparr>t_index = 1, t_id = Some ''b''\<rparr> 0 0 \<noteq> JBool False \<and>
   goTo 1 False example_observed =
     (render 1 example_observed)
       \<lparr>env := 11,
        trace := [Called AfterChange 0 \<lparr>t_index = 1, t_id = Some ''b''\<rparr>,
                  Called AfterChange 1 \<lparr>t_index = 1, t_id = Some ''b''\<rparr>]\<rparr>"
proof -
  let ?as = "[count_calls, refuse, count_calls]"
  let ?b = "\<lparr>t_index = 1, t_id = Some ''b''\<rparr>"
  have na: "\<not> aborted 1 False example_observed"
    by (rule not_aborted_without_interceptors) (simp add: example_observed_fields)
  have c: "current example_observed \<noteq> 1" by (simp add: example_observed_fields)
  have t: "?b = \<lparr>t_index = 1, t_id = attr_checkout_id (container example_observed) 1\<rparr>"
    by (simp add: example_observed_fields)
  have r: "render 1 example_observed =
      render 1 (if False then example_observed
                else snd (resolveInterceptors BeforeChange ?b example_observed))"
    by (simp add: resolve_before_example_observed)
  have ac: "?as = interceptors_afterChange example_observed"
    by (simp add: example_observed_fields)
  have e: "env (render 1 example_observed) = 0" and tr: "trace (render 1 example_observed) = []"
    by (simp_all add: example_observed_fields)
  have r1: "returned ?as ?b 0 1 = JBool False" and r0: "returned ?as ?b 0 0 \<noteq> JBool False"
    by (simp_all add: returned_def host_after_def count_calls_def refuse_def)
  have p1: "1 < length ?as" by simp
  have p2: "returned ?as ?b (env (render 1 example_observed)) 1 = JBool False"
    using r1 by (simp add: example_observed_fields)
  have p3: "\<forall>j<1. returned ?as ?b (env (render 1 example_observed)) j \<noteq> JBool False"
    using r0 by (simp add: example_observed_fields)
  have "goTo 1 False example_observed =
     (render 1 example_observed)
       \<lparr>env := host_after (take (Suc 1) ?as) ?b (env (render 1 example_observed)),
        trace := trace (render 1 example_observed) @ map (\<lambda>j. Called AfterChange j ?b) [0..<Suc 1]\<rparr>"
    by (rule goTo_after_interceptors [OF c na t r ac, THEN conjunct1, rule_format, OF p1 p2 p3 [rule_format]])
  then have "goTo 1 False example_observed =
     (render 1 example_observed)
       \<lparr>env := 11, trace := [Called AfterChange 0 ?b, Called AfterChange 1 ?b]\<rparr>"
    by (simp add: example_observed_fields host_after_def count_calls_def refuse_def)
  with c na r1 r0 show ?thesis by blast
qed

text \<open>The claim as stated fails on the observed page: its second after-interceptor
  returns \<^verbatim>\<open>false\<close>, the transition to step 1 succeeds, and the third of the three
  after-interceptors is never called.\<close>

theorem goTo_after_interceptors_counterexample:
  "length (interceptors_afterChange example_observed) = 3 \<and>
   current example_observed \<noteq> 1 \<and> \<not> aborted 1 False example_observed \<and>
   current (goTo 1 False example_observed) = 1 \<and>
   trace (goTo 1 False example_observed) =
     [Called AfterChange 0 \<lparr>t_index = 1, t_id = Some ''b''\<rparr>,
      Called AfterChange 1 \<lparr>t_index = 1, t_id = Some ''b''\<rparr>]"
proof -
  have na: "\<not> aborted 1 False example_observed"
    by (rule not_aborted_without_interceptors) (simp add: example_observed_fields)
  have c: "current example_observed \<noteq> 1" by (simp add: example_observed_fields)
  have "trace (goTo 1 False example_observed) =
     [Called AfterChange 0 \<lparr>t_index = 1, t_id = Some ''b''\<rparr>,
      Called AfterChange 1 \<lparr>t_index = 1, t_id = Some ''b''\<rparr>]"
    by (simp add: goTo_changed [OF na c] Let_def resolve_before_example_observed)
       (simp add: resolveInterceptors_def interceptors_def example_observed_fields Let_def
          count_calls_def refuse_def)
  with na c goTo_current(1) [OF na] show ?thesis by (simp add: example_observed_fields)
qed

subsection \<open>The result of goToID\<close>

text \<open>
  Claim C5. \<^verbatim>\<open>goToID("next")\<close> calls \<^verbatim>\<open>next()\<close> and returns \<^verbatim>\<open>true\<close>;
  \<^verbatim>\<open>goToID("prev")\<close> calls \<^verbatim>\<open>previous()\<close> and returns \<^verbatim>\<open>true\<close>. For any other
  identifier \<open>c\<close>, one \<^verbatim>\<open>#\<close> is removed, \<^verbatim>\<open>goTo(i)\<close> is called for the panels
  whose identifier matches, in order, and the result is \<^verbatim>\<open>false\<close>: with no match the
  state is unchanged, with one match at \<open>k\<close> the state is that of \<^verbatim>\<open>goTo(k)\<close>, and in
  both cases \<^verbatim>\<open>false\<close> is returned.
\<close>

theorem goToID_result:
  assumes "c' = remove1 (CHR ''#'') c"
    and "matches = (\<lambda>i. checkout_id (container s ! i) = Some c')"
    and "n = length (container s)"
  shows "goToID ''next'' s = (True, next s) \<and>
         goToID ''prev'' s = (True, previous s) \<and>
         (c \<noteq> ''next'' \<and> c \<noteq> ''prev'' \<longrightarrow>
            goToID c s = (False, fold (\<lambda>i. goTo (int i) False) (filter matches [0 ..< n]) s) \<and>
            ((\<forall>i<n. \<not> matches i) \<longrightarrow> goToID c s = (False, s)) \<and>
            (\<forall>k<n. matches k \<and> (\<forall>i<n. i \<noteq> k \<longrightarrow> \<not> matches i) \<longrightarrow>
                goToID c s = (False, goTo (int k) False s)))"
proof -
  have g: "c \<noteq> ''next'' \<Longrightarrow> c \<noteq> ''prev'' \<Longrightarrow>
      goToID c s = (False, fold (\<lambda>i. goTo (int i) False) (filter matches [0 ..< n]) s)"
    using assms by (simp add: goToID_def each_container_matches)
  have none: "(\<forall>i<n. \<not> matches i) \<Longrightarrow> filter matches [0 ..< n] = []"
    by (rule filter_upt_none)
  have one: "\<And>k. k < n \<Longrightarrow> matches k \<Longrightarrow> (\<forall>i<n. i \<noteq> k \<longrightarrow> \<not> matches i)
      \<Longrightarrow> filter matches [0 ..< n] = [k]"
    by (rule filter_upt_one)
  show ?thesis
  proof (intro conjI impI allI)
    show "goToID ''next'' s = (True, next s)" by (simp add: goToID_def)
    show "goToID ''prev'' s = (True, previous s)" by (simp add: goToID_def)
  next
    assume "c \<noteq> ''next'' \<and> c \<noteq> ''prev''"
    then show "goToID c s = (False, fold (\<lambda>i. goTo (int i) False) (filter matches [0 ..< n]) s)"
      using g by simp
  next
    assume "c \<noteq> ''next'' \<and> c \<noteq> ''prev''" and "\<forall>i<n. \<not> matches i"
    then show "goToID c s = (False, s)" using g none by simp
  next
    fix k
    assume "c \<noteq> ''next'' \<and> c \<noteq> ''prev''" and "k < n"
      and "matches k \<and> (\<forall>i<n. i \<noteq> k \<longrightarrow> \<not> matches i)"
    then show "goToID c s = (False, goTo (int k) False s)" using g one [of k] by simp
  qed
qed

theorem goToID_result_witness:
  "goToID ''next'' example_started = (True, next example_started) \<and>
   goToID ''prev'' example_started = (True, previous example_started) \<and>
   ''#b'' \<noteq> ''next'' \<and> ''#b'' \<noteq> ''prev'' \<and> remove1 (CHR ''#'') ''#b'' = ''b'' \<and>
   goToID ''#b'' example_started = (False, goTo 1 False example_started) \<and>
   goToID ''#x'' example_started = (False, example_started)"
proof -
  have b: "remove1 (CHR ''#'') ''#b'' = ''b''" and x: "remove1 (CHR ''#'') ''#x'' = ''x''"
    by simp_all
  have n: "3 = length (container example_started)" by (simp add: example_started_fields)
  have mb: "\<And>i. i < 3 \<Longrightarrow>
      (checkout_id (container example_started ! i) = Some ''b'') = (i = 1)"
    by (auto simp: example_started_def less_Suc_eq numeral_3_eq_3)
  have mx: "\<And>i. i < 3 \<Longrightarrow> checkout_id (container example_started ! i) \<noteq> Some ''x''"
    by (auto simp: example_started_def less_Suc_eq numeral_3_eq_3)
  have ne: "''#b'' \<noteq> ''next'' \<and> ''#b'' \<noteq> ''prev''" "''#x'' \<noteq> ''next'' \<and> ''#x'' \<noteq> ''prev''"
    by simp_all
  note tb = goToID_result [OF b [symmetric] refl n]
  note tx = goToID_result [OF x [symmetric] refl n]
  have one: "1 < (3::nat)" by simp
  have m1: "checkout_id (container example_started ! 1) = Some ''b'' \<and>
      (\<forall>i<3. i \<noteq> 1 \<longrightarrow> checkout_id (container example_started ! i) \<noteq> Some ''b'')"
    using mb by simp
  have mx': "\<forall>i<3. checkout_id (container example_started ! i) \<noteq> Some ''x''"
    using mx by simp
  have gb: "goToID ''#b'' example_started = (False, goTo (int 1) False example_started)"
    by (rule tb [THEN conjunct2, THEN conjunct2, THEN mp, OF ne(1), THEN conjunct2,
          THEN conjunct2, rule_format, OF one m1])
  have gx: "goToID ''#x'' example_started = (False, example_started)"
    by (rule tx [THEN conjunct2, THEN conjunct2, THEN mp, OF ne(2), THEN conjunct2,
          THEN conjunct1, rule_format, OF mx' [rule_format]])
  have gn: "goToID ''next'' example_started = (True, next example_started)"
    by (rule tb [THEN conjunct1])
  have gp: "goToID ''prev'' example_started = (True, previous example_started)"
    by (rule tb [THEN conjunct2, THEN conjunct1])
  from gn gp gb gx show ?thesis by simp
qed

subsection \<open>A page that init does not accept\<close>

text \<open>
  Claim C6, as the code has it. When the marker count differs from the panel count or
  there are no panels, \<^verbatim>\<open>init\<close> binds the elements it found and does nothing else:
  nothing is hidden or disabled, no handler is attached, \<open>current\<close> stays \<open>-1\<close>.
  In the state \<open>s'\<close> it leaves, \<^verbatim>\<open>getCurrentContainer\<close> returns \<^verbatim>\<open>null\<close>,
  \<^verbatim>\<open>previous\<close> and \<^verbatim>\<open>goToID("prev")\<close> change nothing; when there are no markers,
  \<^verbatim>\<open>next\<close>, \<^verbatim>\<open>goToID("next")\<close> and \<^verbatim>\<open>fillNavigation\<close> change nothing; and
  \<^verbatim>\<open>goToID\<close> of an identifier that no panel carries returns \<^verbatim>\<open>false\<close> and changes
  nothing. Nothing is said of \<^verbatim>\<open>goTo\<close> and \<^verbatim>\<open>continueChange\<close>: they have no guard
  and perform the transition on whatever is bound.
\<close>

theorem init_malformed:
  assumes "length (doc_navigation doc) \<noteq> length (doc_container doc)
           \<or> length (doc_container doc) = 0"
    and "current s = - 1"
    and "s' = s\<lparr>navigation := doc_navigation doc, container := doc_container doc,
                 buttonNext := doc_next doc, buttonPrev := doc_prev doc\<rparr>"
  shows "init doc s = s' \<and>
         getCurrentContainer s' = None \<and>
         previous s' = s' \<and> goToID ''prev'' s' = (True, s') \<and>
         (doc_navigation doc = [] \<longrightarrow>
            next s' = s' \<and> goToID ''next'' s' = (True, s') \<and> fillNavigation s' = s') \<and>
         (c \<noteq> ''next'' \<and> c \<noteq> ''prev'' \<and>
          (\<forall>p \<in> set (doc_container doc). checkout_id p \<noteq> Some (remove1 (CHR ''#'') c))
            \<longrightarrow> goToID c s' = (False, s'))"
proof -
  have i: "init doc s = s'" using assms(1,3) by (auto simp: init_def Let_def)
  have cur: "current s' = - 1" and nav: "navigation s' = doc_navigation doc"
    and con: "container s' = doc_container doc"
    using assms(2,3) by simp_all
  have g: "getCurrentContainer s' = None" using cur by (simp add: getCurrentContainer_def)
  have p: "previous s' = s'" using cur by (simp add: previous_def)
  have n: "doc_navigation doc = [] \<Longrightarrow> next s' = s'" using cur nav by (simp add: next_def)
  have f: "doc_navigation doc = [] \<Longrightarrow> fillNavigation s' = s'"
    using nav by (simp add: fillNavigation_def)
  have m: "each_container (remove1 (CHR ''#'') c) s' = s'"
    if "\<forall>p \<in> set (doc_container doc). checkout_id p \<noteq> Some (remove1 (CHR ''#'') c)"
  proof -
    have "filter (\<lambda>i. checkout_id (container s' ! i) = Some (remove1 (CHR ''#'') c))
            [0 ..< length (container s')] = []"
      using that con by (intro filter_upt_none) simp
    then show ?thesis by (simp add: each_container_matches)
  qed
  show ?thesis using i g p n f m by (simp add: goToID_def)
qed

theorem init_malformed_witness:
  "length (doc_container empty_document) = 0 \<and>
   current example_loaded = - 1 \<and>
   init empty_document example_loaded =
     example_loaded\<lparr>navigation := [], container := [],
                    buttonNext := doc_next empty_document, buttonPrev := doc_prev empty_document\<rparr> \<and>
   getCurrentContainer (init empty_document example_loaded) = None \<and>
   previous (init empty_document example_loaded) = init empty_document example_loaded \<and>
   next (init empty_document example_loaded) = init empty_document example_loaded \<and>
   fillNavigation (init empty_document example_loaded) = init empty_document example_loaded \<and>
   goToID ''#b'' (init empty_document example_loaded) = (False, init empty_document example_loaded)"
proof -
  have h1: "length (doc_navigation empty_document) \<noteq> length (doc_container empty_document)
      \<or> length (doc_container empty_document) = 0"
    by (simp add: empty_document_def)
  have h2: "current example_loaded = - 1" by (simp add: example_loaded_def)
  have h3: "example_loaded\<lparr>navigation := [], container := [],
                    buttonNext := doc_next empty_document, buttonPrev := doc_prev empty_document\<rparr>
     = example_loaded\<lparr>navigation := doc_navigation empty_document,
                    container := doc_container empty_document,
                    buttonNext := doc_next empty_document, buttonPrev := doc_prev empty_document\<rparr>"
    by (simp add: empty_document_def)
  have n: "doc_navigation empty_document = []" and c: "doc_container empty_document = []"
    by (simp_all add: empty_document_def)
  from init_malformed [OF h1 h2 h3] h2 n c show ?thesis by simp
qed

text \<open>The claim as stated fails: on the page without steps \<^verbatim>\<open>goTo(0)\<close> sets
  \<open>current\<close> to \<open>0\<close> and \<^verbatim>\<open>getCurrentContainer\<close> then returns an object; on the
  page with three markers and two panels \<^verbatim>\<open>next()\<close> moves to step \<open>0\<close>.\<close>

theorem init_malformed_counterexample:
  "length (doc_container empty_document) = 0 \<and>
   current (init empty_document example_loaded) = - 1 \<and>
   current (goTo 0 False (init empty_document example_loaded)) = 0 \<and>
   getCurrentContainer (goTo 0 False (init empty_document example_loaded))
     = Some \<lparr>t_index = 0, t_id = None\<rparr> \<and>
   length (doc_navigation short_document) \<noteq> length (doc_container short_document) \<and>
   current (init short_document example_loaded) = - 1 \<and>
   current (next (init short_document example_loaded)) = 0"
proof -
  let ?e = "init empty_document example_loaded"
  let ?s = "init short_document example_loaded"
  have e: "interceptors_beforeChange ?e = []" "current ?e = - 1" "container ?e = []"
    by (simp_all add: init_empty_document) (simp_all add: example_loaded_def)
  have s: "interceptors_beforeChange ?s = []" "current ?s = - 1" "length (navigation ?s) = 3"
    by (simp_all add: init_short_document) (simp_all add: example_loaded_def example_document_def)
  have ne: "\<not> aborted 0 False ?e" using e(1) by (rule not_aborted_without_interceptors)
  have ns: "\<not> aborted 0 False ?s" using s(1) by (rule not_aborted_without_interceptors)
  have g: "current (goTo 0 False ?e) = 0" using ne by (rule goTo_current)
  have c: "getCurrentContainer (goTo 0 False ?e) = Some \<lparr>t_index = 0, t_id = None\<rparr>"
    using g e(3) by (simp add: getCurrentContainer_def attr_checkout_id_def)
  have n: "current (next ?s) = 0"
    using s goTo_current(1) [OF ns] by (simp add: next_def)
  have d: "length (doc_container empty_document) = 0"
    "length (doc_navigation short_document) \<noteq> length (doc_container short_document)"
    by (simp_all add: empty_document_def short_document_def example_document_def)
  from d e(2) g c s(2) n show ?thesis by simp
qed

subsection \<open>continueChange\<close>

text \<open>
  Claim C7. \<^verbatim>\<open>continueChange(target)\<close> is \<^verbatim>\<open>goTo(target.index, true)\<close>. It is never
  aborted and ends with \<open>current = target.index\<close>, and the registered
  before-interceptors have no part in it: with any other list \<open>bs\<close> of
  before-interceptors the result is the same state (carrying \<open>bs\<close>).
\<close>

theorem continueChange_forces:
  "continueChange t s = goTo (t_index t) True s \<and>
   \<not> aborted (t_index t) True s \<and>
   current (continueChange t s) = t_index t \<and>
   continueChange t (s\<lparr>interceptors_beforeChange := bs\<rparr>) =
     (continueChange t s)\<lparr>interceptors_beforeChange := bs\<rparr>"
proof -
  have na: "\<And>s :: 'a navigator. \<not> aborted (t_index t) True s" by (simp add: aborted_def)
  have "goTo (t_index t) True (s\<lparr>interceptors_beforeChange := bs\<rparr>) =
      (goTo (t_index t) True s)\<lparr>interceptors_beforeChange := bs\<rparr>"
    by (simp add: goTo_forced render_before_update resolveInterceptors_after_before_update)
  then show ?thesis
    using na goTo_current(1) [OF na] by (simp add: continueChange_def)
qed

text \<open>On the guarded page \<^verbatim>\<open>goTo(2)\<close> is vetoed and stays at step \<open>0\<close>;
  \<^verbatim>\<open>continueChange\<close> with the same target reaches step \<open>2\<close>.\<close>

theorem continueChange_forces_witness:
  "aborted 2 False example_guarded \<and>
   current (goTo 2 False example_guarded) = 0 \<and>
   current (continueChange \<lparr>t_index = 2, t_id = Some ''c''\<rparr> example_guarded) = 2"
proof -
  have a: "aborted 2 False example_guarded"
    by (simp add: aborted_def resolveInterceptors_def interceptors_def example_guarded_fields
        Let_def count_calls_def veto_c_def)
  have c: "current (continueChange \<lparr>t_index = 2, t_id = Some ''c''\<rparr> example_guarded) = 2"
    using continueChange_forces [of "\<lparr>t_index = 2, t_id = Some ''c''\<rparr>" example_guarded "[]",
        THEN conjunct2, THEN conjunct2, THEN conjunct1]
    by simp
  from a goTo_current(2) [OF a] c show ?thesis by (simp add: example_guarded_fields)
qed

subsection \<open>goTo to the current step\<close>

text \<open>
  Claim C8. A call \<^verbatim>\<open>goTo(i)\<close> with \<open>current = i\<close> renders the page again and calls
  no interceptor (the record of calls and the host state are unchanged). The navigator
  state is the same after the call as before it: \<open>current\<close>, both interceptor
  lists, the number of markers and the identifiers of the panels. The call is
  idempotent: repeating it changes nothing at all.
\<close>

theorem goTo_same_index:
  assumes "current s = i"
  shows "goTo i ign s = render i s \<and>
         trace (goTo i ign s) = trace s \<and> env (goTo i ign s) = env s \<and>
         current (goTo i ign s) = current s \<and>
         interceptors_beforeChange (goTo i ign s) = interceptors_beforeChange s \<and>
         interceptors_afterChange (goTo i ign s) = interceptors_afterChange s \<and>
         length (navigation (goTo i ign s)) = length (navigation s) \<and>
         map checkout_id (container (goTo i ign s)) = map checkout_id (container s) \<and>
         goTo i ign (goTo i ign s) = goTo i ign s"
  using assms by (simp add: goTo_same render_idem)

theorem goTo_same_index_witness:
  "current example_started = 0 \<and>
   goTo 0 False example_started = example_started \<and>
   trace (goTo 0 False example_started) = trace example_started"
proof -
  have h: "current example_started = 0" by (simp add: example_started_fields)
  have "render 0 example_started = example_started"
    using render_idem [of 0 example_prepared] by (simp add: render_example_prepared)
  with goTo_same_index [OF h, of False] h show ?thesis by simp
qed

subsection \<open>next and previous\<close>

text \<open>
  Claim C9. \<^verbatim>\<open>next()\<close> at the last index \<open>N - 1\<close> changes nothing and below it is
  \<^verbatim>\<open>goTo(current + 1)\<close>; \<^verbatim>\<open>previous()\<close> at index \<open>0\<close> changes nothing and above it
  is \<^verbatim>\<open>goTo(current - 1)\<close>.
\<close>

theorem next_previous_steps:
  "(current s = int (length (navigation s)) - 1 \<longrightarrow> next s = s) \<and>
   (current s < int (length (navigation s)) - 1 \<longrightarrow> next s = goTo (current s + 1) False s) \<and>
   (current s = 0 \<longrightarrow> previous s = s) \<and>
   (current s > 0 \<longrightarrow> previous s = goTo (current s - 1) False s)"
  by (simp add: next_def previous_def)

theorem next_previous_steps_witness:
  "current example_started = 0 \<and> previous example_started = example_started \<and>
   next example_started = goTo 1 False example_started \<and>
   current (render 2 example_started) = int (length (navigation (render 2 example_started))) - 1 \<and>
   next (render 2 example_started) = render 2 example_started \<and>
   previous (render 2 example_started) = goTo 1 False (render 2 example_started)"
proof -
  have h: "current example_started = 0" "int (length (navigation example_started)) = 3"
    by (simp_all add: example_started_fields)
  have l: "current (render 2 example_started) = 2"
       "int (length (navigation (render 2 example_started))) = 3"
    by (simp_all add: example_started_fields)
  from next_previous_steps [of example_started] next_previous_steps [of "render 2 example_started"]
    h l show ?thesis by simp
qed

subsection \<open>The paddings set by fillNavigation\<close>

text \<open>
  Claim C10. In \<^verbatim>\<open>fillNavigation\<close>, with \<open>N \<ge> 1\<close> markers and a remaining width
  \<open>W \<ge> 0\<close> (the width left after the buttons, the margins and the label widths are
  subtracted), the base padding is \<open>W div (2 * N)\<close>; the \<open>W mod (2 * N)\<close> leftover
  pixels go one at a time to the markers in index order, to the left padding of a marker
  before its right padding (marker \<open>i\<close> gets a left pixel when \<open>2 * i\<close> is below the
  remainder and a right pixel when \<open>2 * i + 1\<close> is); and the paddings of all markers
  add up to exactly \<open>W\<close>.
\<close>

theorem fillNavigation_padding:
  assumes "1 \<le> length (navigation s)" and "0 \<le> fill_width s"
  shows "(let N = int (length (navigation s)); W = fill_width s;
              nav' = navigation (fillNavigation s)
          in length nav' = length (navigation s) \<and>
             parseInt_quot W (N * 2) = W div (2 * N) \<and>
             (\<forall>i < length nav'.
                paddingLeft (nav' ! i) =
                  W div (2 * N) + (if 2 * int i < W mod (2 * N) then 1 else 0) \<and>
                paddingRight (nav' ! i) =
                  W div (2 * N) + (if 2 * int i + 1 < W mod (2 * N) then 1 else 0)) \<and>
             (\<Sum>m\<leftarrow>nav'. paddingLeft m + paddingRight m) = W)"
proof -
  let ?N = "int (length (navigation s))"
  let ?W = "fill_width s"
  let ?p = "?W div (2 * ?N)"
  have N: "0 < ?N" using assms(1) by auto
  have p: "parseInt_quot ?W (?N * 2) = ?p"
    using assms(2) by (simp add: parseInt_quot_nonneg mult.commute)
  have d: "?W - ?N * ?p * 2 = ?W mod (2 * ?N)"
    using minus_div_mult_eq_mod [of ?W "2 * ?N"] by (simp add: ac_simps)
  have nav: "navigation (fillNavigation s) = distribute ?p (?W mod (2 * ?N)) (navigation s)"
  proof -
    have "navigation s \<noteq> []" using assms(1) by auto
    then show ?thesis using p d by (simp add: fillNavigation_def Let_def)
  qed
  have m0: "0 \<le> ?W mod (2 * ?N)" and m1: "?W mod (2 * ?N) < 2 * ?N"
    using N by simp_all
  have sum: "(\<Sum>m\<leftarrow>distribute ?p (?W mod (2 * ?N)) (navigation s).
                paddingLeft m + paddingRight m) = ?W"
    using m0 m1 mult_div_mod_eq [of "2 * ?N" ?W] by (simp add: distribute_sum ac_simps)
  show ?thesis
    unfolding Let_def nav
    using p sum by (simp add: length_distribute distribute_nth)
qed

theorem fillNavigation_padding_witness:
  "1 \<le> length (navigation example_bound) \<and> fill_width example_bound = 29 \<and>
   map (\<lambda>m. (paddingLeft m, paddingRight m)) (navigation (fillNavigation example_bound))
     = [(5, 5), (5, 5), (5, 4)] \<and>
   (\<Sum>m\<leftarrow>navigation (fillNavigation example_bound). paddingLeft m + paddingRight m) = 29"
proof -
  have w: "fill_width example_bound = 29"
    by (simp add: fill_width_def buttonWidth_def example_defs)
  have n: "1 \<le> length (navigation example_bound)"
    by (simp add: example_defs)
  have "navigation (fillNavigation example_bound) =
          distribute 4 5 (navigation example_bound)"
    using n by (simp add: fillNavigation_def w parseInt_quot_def Let_def) (simp add: example_defs)
  then have "map (\<lambda>m. (paddingLeft m, paddingRight m)) (navigation (fillNavigation example_bound))
               = [(5, 5), (5, 5), (5, 4)]"
    by (simp add: example_defs Let_def)
  with w n fillNavigation_padding [of example_bound] show ?thesis
    by (simp add: Let_def)
qed

end
